theory Spec2Isabelle
  imports Main "HOL-Library.Word"
begin

unbundle bit_operations_syntax

section \<open>Machine types, faults and build parameters\<close>

text \<open>
  The three classes of \<^verbatim>\<open>bitset.h\<close> are embedded for an LP64 platform: \<^verbatim>\<open>size_t\<close> is a
  64-bit word (its arithmetic wraps), \<^verbatim>\<open>uint32_t\<close> a 32-bit word, memory is addressed in
  bytes and words are stored little-endian.  Whatever the C++ standard leaves undefined
  is a value of type \<open>fault\<close>:
  \<^item> \<open>AllocFailed\<close>: \<^verbatim>\<open>new\<close> threw \<^verbatim>\<open>std::bad_alloc\<close>, the handler printed the message
    and called \<^verbatim>\<open>exit(1)\<close>;
  \<^item> \<open>OutOfBounds\<close>: an access outside the bounds of the array it addresses;
  \<^item> \<open>Indeterminate\<close>: a read of a word that \<^verbatim>\<open>new\<close> returned and nobody has written;
  \<^item> \<open>AssertFailed\<close>: an assertion of an assertion-enabled build failed.
\<close>

type_synonym size_t = "64 word"
type_synonym uint32_t = "32 word"
type_synonym byte = "8 word"

datatype fault = AllocFailed | OutOfBounds | Indeterminate | AssertFailed

text \<open>
  Modelled from the spec: \<^verbatim>\<open>assert_helpers.h\<close> (the macros \<^verbatim>\<open>assert_lt\<close>, \<^verbatim>\<open>assert_gt\<close>
  and \<^verbatim>\<open>ASSERT_ONLY\<close>) is not among the sources.  The spec says that contract violations
  are "checked only in assertion-enabled builds", so an assertion is a check that a build
  with \<^verbatim>\<open>NDEBUG\<close> skips.  The first argument says whether \<^verbatim>\<open>NDEBUG\<close> is defined.
\<close>

definition assert_holds :: "bool \<Rightarrow> bool \<Rightarrow> bool" where
  "assert_holds ndebug cond = (ndebug \<or> cond)"

text \<open>
  The two expressions every class uses on the word that holds bit \<open>i\<close>:
  \<^verbatim>\<open>(w >> (i & 0x1f)) & 1\<close> and \<^verbatim>\<open>1 << (i & 0x1f)\<close>, the latter converted to
  \<^verbatim>\<open>uint32_t\<close> by the \<^verbatim>\<open>|=\<close> that consumes it.
\<close>

definition bit_of :: "uint32_t \<Rightarrow> size_t \<Rightarrow> uint32_t" where
  "bit_of w i = drop_bit (unat (i AND 0x1f)) w AND 1"

definition bit_mask :: "size_t \<Rightarrow> uint32_t" where
  "bit_mask i = push_bit (unat (i AND 0x1f)) 1"

section \<open>Heap arrays\<close>

text \<open>
  A heap array is the list of its bytes; \<open>None\<close> is a byte of indeterminate value.  The
  length of the list is the size of the allocation, so that every access can be checked
  against it.  \<^verbatim>\<open>new uint32_t[n]\<close> succeeds when the allocator can provide \<open>n\<close> words;
  \<open>heap\<close> is the largest request it satisfies.
\<close>

type_synonym heap_array = "byte option list"

definition new_uint32_t :: "nat \<Rightarrow> nat \<Rightarrow> fault + heap_array" where
  "new_uint32_t heap n =
     (if n \<le> heap then Inr (replicate (4 * n) None) else Inl AllocFailed)"

text \<open>\<^verbatim>\<open>memset(a + off, v, n)\<close>, with \<open>off\<close> and \<open>n\<close> in bytes.\<close>

definition memset :: "heap_array \<Rightarrow> nat \<Rightarrow> byte \<Rightarrow> nat \<Rightarrow> fault + heap_array" where
  "memset a off v n =
     (if off + n \<le> length a
      then Inr (take off a @ replicate n (Some v) @ drop (off + n) a)
      else Inl OutOfBounds)"

text \<open>\<^verbatim>\<open>memcpy(dst, src, n)\<close>, with \<open>n\<close> in bytes.\<close>

definition memcpy :: "heap_array \<Rightarrow> heap_array \<Rightarrow> nat \<Rightarrow> fault + heap_array" where
  "memcpy dst src n =
     (if n \<le> length dst \<and> n \<le> length src
      then Inr (take n src @ drop n dst)
      else Inl OutOfBounds)"

definition word_of_bytes :: "byte list \<Rightarrow> uint32_t" where
  "word_of_bytes bs =
     ucast (bs ! 0) OR push_bit 8 (ucast (bs ! 1)) OR
     push_bit 16 (ucast (bs ! 2)) OR push_bit 24 (ucast (bs ! 3))"

definition bytes_of_word :: "uint32_t \<Rightarrow> byte list" where
  "bytes_of_word w =
     [ucast w, ucast (drop_bit 8 w), ucast (drop_bit 16 w), ucast (drop_bit 24 w)]"

text \<open>Reading and writing \<^verbatim>\<open>a[k]\<close> for a \<^verbatim>\<open>uint32_t *a\<close>.\<close>

definition load_word :: "heap_array \<Rightarrow> nat \<Rightarrow> fault + uint32_t" where
  "load_word a k =
     (if 4 * k + 4 \<le> length a
      then (case those (take 4 (drop (4 * k) a)) of
              None \<Rightarrow> Inl Indeterminate
            | Some bs \<Rightarrow> Inr (word_of_bytes bs))
      else Inl OutOfBounds)"

definition store_word :: "heap_array \<Rightarrow> nat \<Rightarrow> uint32_t \<Rightarrow> fault + heap_array" where
  "store_word a k w =
     (if 4 * k + 4 \<le> length a
      then Inr (take (4 * k) a @ map Some (bytes_of_word w) @ drop (4 * k + 4) a)
      else Inl OutOfBounds)"

section \<open>Bitset and SyncBitset\<close>

text \<open>
  Both growable classes have the fields \<^verbatim>\<open>_sz\<close> (the capacity in bits) and \<^verbatim>\<open>_words\<close>; the
  error message and the mutex carry no data the operations read.  \<^verbatim>\<open>threading.h\<close> is not
  among the sources: the model is of one thread, where taking and releasing the lock
  changes nothing.
\<close>

record Bitset =
  bs_sz :: size_t
  bs_words :: heap_array

text \<open>The constructor of both classes; \<open>sz\<close> is the size hint.\<close>

definition Bitset_ctor :: "nat \<Rightarrow> size_t \<Rightarrow> fault + Bitset" where
  "Bitset_ctor heap sz =
     (let nwords = drop_bit 5 sz + 1 in
      case new_uint32_t heap (unat nwords) of
        Inl e \<Rightarrow> Inl e
      | Inr ws \<Rightarrow>
          (case memset ws 0 0 (unat (nwords * 4)) of
             Inl e \<Rightarrow> Inl e
           | Inr ws' \<Rightarrow> Inr \<lparr>bs_sz = push_bit 5 nwords, bs_words = ws'\<rparr>))"

text \<open>\<^verbatim>\<open>test\<close> of both classes, and \<^verbatim>\<open>testUnsync\<close>.\<close>

definition Bitset_test :: "Bitset \<Rightarrow> size_t \<Rightarrow> fault + bool" where
  "Bitset_test s i =
     (if i < bs_sz s
      then (case load_word (bs_words s) (unat (drop_bit 5 i)) of
              Inl e \<Rightarrow> Inl e
            | Inr w \<Rightarrow> Inr (bit_of w i \<noteq> 0))
      else Inr False)"

text \<open>The new capacity that \<^verbatim>\<open>expand\<close> computes, in \<^verbatim>\<open>Bitset\<close> and in \<^verbatim>\<open>SyncBitset\<close>.\<close>

definition Bitset_expand_sz :: "size_t \<Rightarrow> size_t" where
  "Bitset_expand_sz oldsz = oldsz + drop_bit 1 oldsz"

definition SyncBitset_expand_sz :: "size_t \<Rightarrow> size_t" where
  "SyncBitset_expand_sz oldsz = (oldsz + drop_bit 1 oldsz + 7) AND NOT 0x7"

definition Bitset_expand :: "nat \<Rightarrow> Bitset \<Rightarrow> fault + Bitset" where
  "Bitset_expand heap s =
     (let oldsz = bs_sz s; newsz = Bitset_expand_sz oldsz in
      case new_uint32_t heap (unat (drop_bit 5 newsz)) of
        Inl e \<Rightarrow> Inl e
      | Inr newwords \<Rightarrow>
          (case memcpy newwords (bs_words s) (unat (drop_bit 3 oldsz)) of
             Inl e \<Rightarrow> Inl e
           | Inr copied \<Rightarrow>
               (case memset copied (4 * unat (drop_bit 5 oldsz)) 0 (unat (drop_bit 4 oldsz)) of
                  Inl e \<Rightarrow> Inl e
                | Inr zeroed \<Rightarrow> Inr \<lparr>bs_sz = newsz, bs_words = zeroed\<rparr>)))"

definition SyncBitset_expand :: "nat \<Rightarrow> Bitset \<Rightarrow> fault + Bitset" where
  "SyncBitset_expand heap s =
     (let oldsz = bs_sz s; newsz = SyncBitset_expand_sz oldsz in
      case new_uint32_t heap (unat (drop_bit 5 newsz)) of
        Inl e \<Rightarrow> Inl e
      | Inr newwords \<Rightarrow>
          (case memcpy newwords (bs_words s) (unat (drop_bit 3 oldsz)) of
             Inl e \<Rightarrow> Inl e
           | Inr copied \<Rightarrow>
               (case memset copied (4 * unat (drop_bit 5 oldsz)) 0
                       (unat (drop_bit 3 (newsz - oldsz))) of
                  Inl e \<Rightarrow> Inl e
                | Inr zeroed \<Rightarrow> Inr \<lparr>bs_sz = newsz, bs_words = zeroed\<rparr>)))"

text \<open>
  The loop \<^verbatim>\<open>while(i >= _sz) { expand(); assert_gt(_sz, oldsz); }\<close> that opens \<^verbatim>\<open>set\<close> and
  \<^verbatim>\<open>setOver\<close> of both classes; \<open>expand\<close> is the class's own.  A run that never leaves
  the loop is \<open>None\<close>.
\<close>

partial_function (option) grow_loop ::
  "(Bitset \<Rightarrow> fault + Bitset) \<Rightarrow> bool \<Rightarrow> size_t \<Rightarrow> Bitset \<Rightarrow> (fault + Bitset) option" where
  "grow_loop expand ndebug i s =
     (if i \<ge> bs_sz s
      then (case expand s of
              Inl e \<Rightarrow> Some (Inl e)
            | Inr s' \<Rightarrow>
                if assert_holds ndebug (bs_sz s' > bs_sz s)
                then grow_loop expand ndebug i s'
                else Some (Inl AssertFailed))
      else Some (Inr s))"

text \<open>
  The fast path that follows the loop.  \<open>strict\<close> is true in \<^verbatim>\<open>set\<close>, which asserts that the
  bit is clear, and false in \<^verbatim>\<open>setOver\<close>; \<open>sync\<close> is true in \<^verbatim>\<open>SyncBitset\<close>, which asserts
  \<^verbatim>\<open>i < _sz\<close> first.
\<close>

definition fast_path :: "bool \<Rightarrow> bool \<Rightarrow> bool \<Rightarrow> Bitset \<Rightarrow> size_t \<Rightarrow> fault + Bitset" where
  "fast_path sync strict ndebug s i =
     (if sync \<and> \<not> assert_holds ndebug (i < bs_sz s) then Inl AssertFailed
      else case load_word (bs_words s) (unat (drop_bit 5 i)) of
        Inl e \<Rightarrow> Inl e
      | Inr w \<Rightarrow>
          if strict \<and> \<not> assert_holds ndebug (bit_of w i = 0) then Inl AssertFailed
          else (case store_word (bs_words s) (unat (drop_bit 5 i)) (w OR bit_mask i) of
                  Inl e \<Rightarrow> Inl e
                | Inr ws \<Rightarrow>
                    if assert_holds ndebug (bit_of (w OR bit_mask i) i = 1)
                    then Inr (s\<lparr>bs_words := ws\<rparr>)
                    else Inl AssertFailed))"

definition then_fast_path ::
  "bool \<Rightarrow> bool \<Rightarrow> bool \<Rightarrow> size_t \<Rightarrow> (fault + Bitset) option \<Rightarrow> (fault + Bitset) option" where
  "then_fast_path sync strict ndebug i r =
     (case r of
        None \<Rightarrow> None
      | Some (Inl e) \<Rightarrow> Some (Inl e)
      | Some (Inr s) \<Rightarrow> Some (fast_path sync strict ndebug s i))"

definition Bitset_set :: "bool \<Rightarrow> nat \<Rightarrow> Bitset \<Rightarrow> size_t \<Rightarrow> (fault + Bitset) option" where
  "Bitset_set ndebug heap s i =
     then_fast_path False True ndebug i (grow_loop (Bitset_expand heap) ndebug i s)"

definition Bitset_setOver :: "bool \<Rightarrow> nat \<Rightarrow> Bitset \<Rightarrow> size_t \<Rightarrow> (fault + Bitset) option" where
  "Bitset_setOver ndebug heap s i =
     then_fast_path False False ndebug i (grow_loop (Bitset_expand heap) ndebug i s)"

definition SyncBitset_set :: "bool \<Rightarrow> nat \<Rightarrow> Bitset \<Rightarrow> size_t \<Rightarrow> (fault + Bitset) option" where
  "SyncBitset_set ndebug heap s i =
     then_fast_path True True ndebug i (grow_loop (SyncBitset_expand heap) ndebug i s)"

definition SyncBitset_setOver :: "bool \<Rightarrow> nat \<Rightarrow> Bitset \<Rightarrow> size_t \<Rightarrow> (fault + Bitset) option" where
  "SyncBitset_setOver ndebug heap s i =
     then_fast_path True False ndebug i (grow_loop (SyncBitset_expand heap) ndebug i s)"

text \<open>A sequence of calls on one growable bitset; \<open>sync\<close> chooses the class.\<close>

datatype bs_op = Test size_t | Set size_t | SetOver size_t

definition bs_call :: "bool \<Rightarrow> bool \<Rightarrow> nat \<Rightarrow> Bitset \<Rightarrow> bs_op \<Rightarrow> (fault + Bitset) option" where
  "bs_call sync ndebug heap s x =
     (case x of
        Test i \<Rightarrow> (case Bitset_test s i of Inl e \<Rightarrow> Some (Inl e) | Inr b \<Rightarrow> Some (Inr s))
      | Set i \<Rightarrow> (if sync then SyncBitset_set ndebug heap s i else Bitset_set ndebug heap s i)
      | SetOver i \<Rightarrow>
          (if sync then SyncBitset_setOver ndebug heap s i else Bitset_setOver ndebug heap s i))"

fun bs_calls :: "bool \<Rightarrow> bool \<Rightarrow> nat \<Rightarrow> Bitset \<Rightarrow> bs_op list \<Rightarrow> (fault + Bitset) option" where
  "bs_calls sync ndebug heap s [] = Some (Inr s)"
| "bs_calls sync ndebug heap s (x # xs) =
     (case bs_call sync ndebug heap s x of
        None \<Rightarrow> None
      | Some (Inl e) \<Rightarrow> Some (Inl e)
      | Some (Inr s') \<Rightarrow> bs_calls sync ndebug heap s' xs)"

section \<open>FixedBitset\<close>

text \<open>
  \<^verbatim>\<open>FixedBitset<LEN>\<close> holds its words in a member array of \<^verbatim>\<open>(LEN>>5)+1\<close> words, all of
  them written by the constructor, so the array is a list of words.  \<open>LEN\<close> is a
  non-negative \<^verbatim>\<open>int\<close>.  An access beyond the array is \<open>OutOfBounds\<close>.
\<close>

record FixedBitset =
  fb_cnt :: size_t
  fb_size :: size_t
  fb_words :: "uint32_t list"

definition fb_nwords :: "nat \<Rightarrow> nat" where
  "fb_nwords LEN = LEN div 32 + 1"

definition FixedBitset_ctor :: "nat \<Rightarrow> FixedBitset" where
  "FixedBitset_ctor LEN = \<lparr>fb_cnt = 0, fb_size = 0, fb_words = replicate (fb_nwords LEN) 0\<rparr>"

definition FixedBitset_clear :: "nat \<Rightarrow> FixedBitset \<Rightarrow> FixedBitset" where
  "FixedBitset_clear LEN s = s\<lparr>fb_words := replicate (fb_nwords LEN) 0\<rparr>"

definition FixedBitset_test :: "bool \<Rightarrow> nat \<Rightarrow> FixedBitset \<Rightarrow> size_t \<Rightarrow> fault + bool" where
  "FixedBitset_test ndebug LEN s i =
     (if \<not> assert_holds ndebug (unat i < LEN) then Inl AssertFailed
      else if unat (drop_bit 5 i) < length (fb_words s)
      then Inr (bit_of (fb_words s ! unat (drop_bit 5 i)) i \<noteq> 0)
      else Inl OutOfBounds)"

text \<open>\<^verbatim>\<open>set\<close> (\<open>strict\<close>) and \<^verbatim>\<open>setOver\<close> differ in one assertion.\<close>

definition fb_set_body :: "bool \<Rightarrow> bool \<Rightarrow> nat \<Rightarrow> FixedBitset \<Rightarrow> size_t \<Rightarrow> fault + FixedBitset" where
  "fb_set_body strict ndebug LEN s i =
     (if \<not> assert_holds ndebug (unat i < LEN) then Inl AssertFailed
      else if \<not> unat (drop_bit 5 i) < length (fb_words s) then Inl OutOfBounds
      else
        let k = unat (drop_bit 5 i); w = fb_words s ! k in
        if strict \<and> \<not> assert_holds ndebug (bit_of w i = 0) then Inl AssertFailed
        else
          let s1 = s\<lparr>fb_words := (fb_words s)[k := w OR bit_mask i], fb_cnt := fb_cnt s + 1\<rparr>;
              s2 = (if i \<ge> fb_size s1 then s1\<lparr>fb_size := i + 1\<rparr> else s1)
          in if assert_holds ndebug (bit_of (fb_words s2 ! k) i = 1) then Inr s2
             else Inl AssertFailed)"

definition FixedBitset_set :: "bool \<Rightarrow> nat \<Rightarrow> FixedBitset \<Rightarrow> size_t \<Rightarrow> fault + FixedBitset" where
  "FixedBitset_set ndebug LEN s i = fb_set_body True ndebug LEN s i"

definition FixedBitset_setOver :: "bool \<Rightarrow> nat \<Rightarrow> FixedBitset \<Rightarrow> size_t \<Rightarrow> fault + FixedBitset" where
  "FixedBitset_setOver ndebug LEN s i = fb_set_body False ndebug LEN s i"

definition FixedBitset_count :: "FixedBitset \<Rightarrow> size_t" where
  "FixedBitset_count s = fb_cnt s"

definition FixedBitset_size :: "FixedBitset \<Rightarrow> size_t" where
  "FixedBitset_size s = fb_size s"

text \<open>
  The loops of \<^verbatim>\<open>operator==\<close> and \<^verbatim>\<open>operator!=\<close>, from index \<open>i\<close> on; \<open>n\<close> is the bound
  \<^verbatim>\<open>(LEN>>5)+1\<close>.
\<close>

function eq_loop :: "nat \<Rightarrow> nat \<Rightarrow> uint32_t list \<Rightarrow> uint32_t list \<Rightarrow> bool" where
  "eq_loop n i a b =
     (if i < n then (if a ! i \<noteq> b ! i then False else eq_loop n (Suc i) a b) else True)"
  by pat_completeness auto
termination
  by (relation "measure (\<lambda>(n, i, a, b). n - i)") auto

declare eq_loop.simps [simp del]

function ne_loop :: "nat \<Rightarrow> nat \<Rightarrow> uint32_t list \<Rightarrow> uint32_t list \<Rightarrow> bool" where
  "ne_loop n i a b =
     (if i < n then (if a ! i \<noteq> b ! i then True else ne_loop n (Suc i) a b) else False)"
  by pat_completeness auto
termination
  by (relation "measure (\<lambda>(n, i, a, b). n - i)") auto

declare ne_loop.simps [simp del]

definition FixedBitset_eq :: "nat \<Rightarrow> FixedBitset \<Rightarrow> FixedBitset \<Rightarrow> bool" where
  "FixedBitset_eq LEN this that = eq_loop (fb_nwords LEN) 0 (fb_words this) (fb_words that)"

definition FixedBitset_ne :: "nat \<Rightarrow> FixedBitset \<Rightarrow> FixedBitset \<Rightarrow> bool" where
  "FixedBitset_ne LEN this that = ne_loop (fb_nwords LEN) 0 (fb_words this) (fb_words that)"

text \<open>
  \<^verbatim>\<open>str\<close>: the loop variable is an \<^verbatim>\<open>int\<close> that starts at \<^verbatim>\<open>(int)size()-1\<close> and is passed
  to \<^verbatim>\<open>test\<close> as a \<^verbatim>\<open>size_t\<close>; \<open>oss\<close> is what the stream holds so far.
\<close>

function str_loop :: "bool \<Rightarrow> nat \<Rightarrow> FixedBitset \<Rightarrow> int \<Rightarrow> string \<Rightarrow> fault + string" where
  "str_loop ndebug LEN s i oss =
     (if i \<ge> 0
      then (case FixedBitset_test ndebug LEN s (word_of_int i) of
              Inl e \<Rightarrow> Inl e
            | Inr b \<Rightarrow> str_loop ndebug LEN s (i - 1) (oss @ (if b then ''1'' else ''0'')))
      else Inr oss)"
  by pat_completeness auto
termination
  by (relation "measure (\<lambda>(ndebug, LEN, s, i, oss). nat (i + 1))") auto

declare str_loop.simps [simp del]

definition FixedBitset_str :: "bool \<Rightarrow> nat \<Rightarrow> FixedBitset \<Rightarrow> fault + string" where
  "FixedBitset_str ndebug LEN s =
     str_loop ndebug LEN s (sint (ucast (FixedBitset_size s) :: 32 word) - 1) []"

text \<open>A sequence of \<^verbatim>\<open>set\<close> and \<^verbatim>\<open>setOver\<close> calls on one \<^verbatim>\<open>FixedBitset\<close>.\<close>

datatype fb_op = FSet size_t | FSetOver size_t

fun fb_index :: "fb_op \<Rightarrow> size_t" where
  "fb_index (FSet i) = i"
| "fb_index (FSetOver i) = i"

fun fb_call :: "bool \<Rightarrow> nat \<Rightarrow> FixedBitset \<Rightarrow> fb_op \<Rightarrow> fault + FixedBitset" where
  "fb_call ndebug LEN s (FSet i) = FixedBitset_set ndebug LEN s i"
| "fb_call ndebug LEN s (FSetOver i) = FixedBitset_setOver ndebug LEN s i"

fun fb_calls :: "bool \<Rightarrow> nat \<Rightarrow> FixedBitset \<Rightarrow> fb_op list \<Rightarrow> fault + FixedBitset" where
  "fb_calls ndebug LEN s [] = Inr s"
| "fb_calls ndebug LEN s (x # xs) =
     (case fb_call ndebug LEN s x of Inl e \<Rightarrow> Inl e | Inr s' \<Rightarrow> fb_calls ndebug LEN s' xs)"

section \<open>Notions used in the statements\<close>

text \<open>Bit \<open>j\<close> of the word array of a \<^verbatim>\<open>FixedBitset\<close>, as \<^verbatim>\<open>test\<close> reads it.\<close>

definition fb_bit :: "FixedBitset \<Rightarrow> nat \<Rightarrow> bool" where
  "fb_bit s j = bit (fb_words s ! (j div 32)) (j mod 32)"

text \<open>The number of bits of the word array of a \<^verbatim>\<open>FixedBitset\<close> that are 1.\<close>

definition fb_popcount :: "nat \<Rightarrow> FixedBitset \<Rightarrow> nat" where
  "fb_popcount LEN s = length (filter (fb_bit s) [0..<32 * fb_nwords LEN])"

text \<open>
  What the spec says \<^verbatim>\<open>str()\<close> returns: the bits from index \<^verbatim>\<open>size()-1\<close> down to 0, as
  the characters 1 and 0.
\<close>

definition spec_str :: "FixedBitset \<Rightarrow> string" where
  "spec_str s =
     map (\<lambda>j. if fb_bit s j then CHR ''1'' else CHR ''0'') (rev [0..<unat (fb_size s)])"

text \<open>
  What \<^verbatim>\<open>set\<close> and \<^verbatim>\<open>setOver\<close> keep true of \<^verbatim>\<open>_size\<close>: it is within the word array, and
  within \<open>LEN\<close> where assertions are compiled in.
\<close>

definition fb_size_ok :: "bool \<Rightarrow> nat \<Rightarrow> FixedBitset \<Rightarrow> bool" where
  "fb_size_ok ndebug LEN s =
     (unat (fb_size s) \<le> 32 * length (fb_words s) \<and>
      assert_holds ndebug (unat (fb_size s) \<le> LEN))"

text \<open>
  What is true of the capacity of every growable bitset that a constructor returned and
  that \<^verbatim>\<open>set\<close> and \<^verbatim>\<open>setOver\<close> then changed: it is at least 2, and its whole words were
  within the reach of the allocator.
\<close>

definition capacity_ok :: "nat \<Rightarrow> Bitset \<Rightarrow> bool" where
  "capacity_ok heap s = (2 \<le> unat (bs_sz s) \<and> unat (bs_sz s) div 32 \<le> heap)"

text \<open>
  Bit \<open>j\<close> of a heap array, as the bytes hold it; a bitset of whole, initialised words
  whose capacity is the size of its array; bit \<open>i\<close> of such a bitset; and the indices
  that a sequence of calls passes to \<^verbatim>\<open>set\<close> or \<^verbatim>\<open>setOver\<close>.
\<close>

definition byte_bit :: "heap_array \<Rightarrow> nat \<Rightarrow> bool" where
  "byte_bit a j =
     (if j div 8 < length a
      then (case a ! (j div 8) of None \<Rightarrow> False | Some b \<Rightarrow> bit b (j mod 8))
      else False)"

definition bs_wf :: "Bitset \<Rightarrow> bool" where
  "bs_wf s = (unat (bs_sz s) = 8 * length (bs_words s) \<and> 4 dvd length (bs_words s) \<and>
              None \<notin> set (bs_words s))"

definition bs_bit :: "Bitset \<Rightarrow> size_t \<Rightarrow> bool" where
  "bs_bit s i = (i < bs_sz s \<and> byte_bit (bs_words s) (unat i))"

definition set_indices :: "bs_op list \<Rightarrow> size_t set" where
  "set_indices xs = {i. Set i \<in> set xs \<or> SetOver i \<in> set xs}"

section \<open>Indices and bits\<close>

lemma unat_low5: "unat ((i::size_t) AND 0x1f) = unat i mod 32"
proof -
  have "(0x1f::size_t) = mask 5" by (simp add: mask_eq_exp_minus_1)
  then have "i AND 0x1f = take_bit 5 i" by (simp add: take_bit_eq_mask)
  then show ?thesis by (simp add: take_bit_eq_mod unat_mod)
qed

lemma unat_shift1: "unat (drop_bit (Suc 0) (x::size_t)) = unat x div 2"
  by (simp add: drop_bit_eq_div unat_div)

lemma unat_shift3: "unat (drop_bit 3 (x::size_t)) = unat x div 8"
  by (simp add: drop_bit_eq_div unat_div)

lemma unat_shift4: "unat (drop_bit 4 (x::size_t)) = unat x div 16"
  by (simp add: drop_bit_eq_div unat_div)

lemma unat_shift5: "unat (drop_bit 5 (x::size_t)) = unat x div 32"
  by (simp add: drop_bit_eq_div unat_div)

lemma size_t_less: "unat (x::size_t) < 18446744073709551616"
  using unsigned_less[of x, where 'a=nat] by simp

lemma unat_add_64: "unat x + unat y < 2 ^ 64 \<Longrightarrow> unat (x + y :: size_t) = unat x + unat y"
  using unat_add_lem[of x y] by simp

lemma unat_mult_64: "unat x * unat y < 2 ^ 64 \<Longrightarrow> unat (x * y :: size_t) = unat x * unat y"
  using unat_mult_lem[of x y] by simp

lemma bit_of_cases: "bit_of w i = (if bit w (unat i mod 32) then 1 else 0)"
  by (simp add: bit_of_def unat_low5 and_one_eq bit_iff_odd_drop_bit mod_2_eq_odd)

lemma bit_or_mask: "bit (w OR bit_mask i) m = (bit w m \<or> m = unat i mod 32)"
  by (auto simp add: bit_mask_def unat_low5 bit_simps)

section \<open>FixedBitset: one call\<close>

lemma fb_test_eq:
  assumes "assert_holds nd (unat i < LEN)" "unat i div 32 < length (fb_words s)"
  shows "FixedBitset_test nd LEN s i = Inr (fb_bit s (unat i))"
  using assms by (simp add: FixedBitset_test_def unat_shift5 bit_of_cases fb_bit_def)

lemma fb_set_body_Inr:
  assumes "fb_set_body strict nd LEN s i = Inr s'"
  shows "unat i div 32 < length (fb_words s)"
    and "fb_words s' = (fb_words s)[unat i div 32 := fb_words s ! (unat i div 32) OR bit_mask i]"
    and "fb_cnt s' = fb_cnt s + 1"
    and "fb_size s' = (if i \<ge> fb_size s then i + 1 else fb_size s)"
    and "assert_holds nd (unat i < LEN)"
  using assms
  by (auto simp add: fb_set_body_def unat_shift5 Let_def split: if_splits)

lemma fb_set_body_bit:
  assumes "fb_set_body strict nd LEN s i = Inr s'" "j < 32 * length (fb_words s)"
  shows "fb_bit s' j = (fb_bit s j \<or> j = unat i)"
proof -
  note r = fb_set_body_Inr[OF assms(1)]
  have j: "j div 32 < length (fb_words s)" using assms(2) by auto
  show ?thesis
  proof (cases "j div 32 = unat i div 32")
    case True
    then have "(j = unat i) = (j mod 32 = unat i mod 32)"
      by (metis div_mult_mod_eq)
    with True r(1) show ?thesis
      by (simp add: fb_bit_def r(2) bit_or_mask)
  next
    case False
    then have "j \<noteq> unat i" by auto
    with False show ?thesis by (simp add: fb_bit_def r(2))
  qed
qed

lemma fb_set_body_size_ok:
  assumes "fb_set_body strict nd LEN s i = Inr s'" "fb_size_ok nd LEN s"
    "32 * length (fb_words s) < 2 ^ 64"
  shows "fb_size_ok nd LEN s'"
proof -
  note r = fb_set_body_Inr[OF assms(1)]
  have l: "length (fb_words s') = length (fb_words s)" by (simp add: r(2))
  show ?thesis
  proof (cases "fb_size s \<le> i")
    case False
    with r(4) assms(2) l show ?thesis by (simp add: fb_size_ok_def)
  next
    case True
    have "unat i < length (fb_words s) * 32"
      using r(1) by (simp add: less_mult_imp_div_less div_less_iff_less_mult)
    then have b: "unat i + 1 \<le> 32 * length (fb_words s)" by simp
    with assms(3) have "unat i + unat (1::size_t) < 2 ^ 64" by simp
    then have "unat (i + 1) = unat i + unat (1::size_t)" by (rule unat_add_64)
    then have u: "unat (fb_size s') = unat i + 1" using True r(4) by simp
    have "assert_holds nd (unat i + 1 \<le> LEN)" using r(5) by (auto simp add: assert_holds_def)
    with u b l show ?thesis by (simp add: fb_size_ok_def)
  qed
qed

section \<open>FixedBitset: sequences of calls\<close>

lemma fb_call_body:
  "fb_call nd LEN s x =
     fb_set_body (case x of FSet _ \<Rightarrow> True | FSetOver _ \<Rightarrow> False) nd LEN s (fb_index x)"
  by (cases x) (simp_all add: FixedBitset_set_def FixedBitset_setOver_def)

lemma fb_calls_length:
  "fb_calls nd LEN s xs = Inr s' \<Longrightarrow> length (fb_words s') = length (fb_words s)"
proof (induction xs arbitrary: s)
  case Nil
  then show ?case by simp
next
  case (Cons x xs)
  then obtain s1 where 1: "fb_call nd LEN s x = Inr s1" and 2: "fb_calls nd LEN s1 xs = Inr s'"
    by (auto split: sum.splits)
  from 1 have "length (fb_words s1) = length (fb_words s)"
    by (simp add: fb_call_body fb_set_body_Inr(2))
  with Cons.IH[OF 2] show ?case by simp
qed

lemma fb_calls_cnt:
  "fb_calls nd LEN s xs = Inr s' \<Longrightarrow> fb_cnt s' = fb_cnt s + of_nat (length xs)"
proof (induction xs arbitrary: s)
  case Nil
  then show ?case by simp
next
  case (Cons x xs)
  then obtain s1 where 1: "fb_call nd LEN s x = Inr s1" and 2: "fb_calls nd LEN s1 xs = Inr s'"
    by (auto split: sum.splits)
  from 1 have "fb_cnt s1 = fb_cnt s + 1"
    by (simp add: fb_call_body fb_set_body_Inr(3))
  with Cons.IH[OF 2] show ?case by simp
qed

lemma fb_calls_index:
  "fb_calls nd LEN s xs = Inr s' \<Longrightarrow> x \<in> set xs \<Longrightarrow>
   unat (fb_index x) < 32 * length (fb_words s)"
proof (induction xs arbitrary: s)
  case Nil
  then show ?case by simp
next
  case (Cons y xs)
  then obtain s1 where 1: "fb_call nd LEN s y = Inr s1" and 2: "fb_calls nd LEN s1 xs = Inr s'"
    by (auto split: sum.splits)
  from 1 have l: "length (fb_words s1) = length (fb_words s)"
    by (simp add: fb_call_body fb_set_body_Inr(2))
  from 1 have "unat (fb_index y) div 32 < length (fb_words s)"
    by (simp add: fb_call_body fb_set_body_Inr(1))
  then have y: "unat (fb_index y) < 32 * length (fb_words s)" by auto
  show ?case
  proof (cases "x = y")
    case True
    with y show ?thesis by simp
  next
    case False
    with Cons.prems have "x \<in> set xs" by simp
    from Cons.IH[OF 2 this] l show ?thesis by simp
  qed
qed

lemma fb_calls_bit:
  "fb_calls nd LEN s xs = Inr s' \<Longrightarrow> j < 32 * length (fb_words s) \<Longrightarrow>
   fb_bit s' j = (fb_bit s j \<or> j \<in> unat ` fb_index ` set xs)"
proof (induction xs arbitrary: s)
  case Nil
  then show ?case by simp
next
  case (Cons y xs)
  then obtain s1 where 1: "fb_call nd LEN s y = Inr s1" and 2: "fb_calls nd LEN s1 xs = Inr s'"
    by (auto split: sum.splits)
  from 1 have b:
    "fb_set_body (case y of FSet _ \<Rightarrow> True | FSetOver _ \<Rightarrow> False) nd LEN s (fb_index y) = Inr s1"
    by (simp add: fb_call_body)
  have l: "length (fb_words s1) = length (fb_words s)"
    by (simp add: fb_set_body_Inr(2)[OF b])
  have "fb_bit s1 j = (fb_bit s j \<or> j = unat (fb_index y))"
    by (rule fb_set_body_bit[OF b Cons.prems(2)])
  moreover have "fb_bit s' j = (fb_bit s1 j \<or> j \<in> unat ` fb_index ` set xs)"
    using Cons.IH[OF 2] Cons.prems(2) l by simp
  ultimately show ?case by auto
qed

lemma fb_calls_size_ok:
  assumes "32 * length (fb_words s) < 2 ^ 64"
  shows "fb_calls nd LEN s xs = Inr s' \<Longrightarrow> fb_size_ok nd LEN s \<Longrightarrow> fb_size_ok nd LEN s'"
  using assms
proof (induction xs arbitrary: s)
  case Nil
  then show ?case by simp
next
  case (Cons x xs)
  then obtain s1 where 1: "fb_call nd LEN s x = Inr s1" and 2: "fb_calls nd LEN s1 xs = Inr s'"
    by (auto split: sum.splits)
  from 1 have b:
    "fb_set_body (case x of FSet _ \<Rightarrow> True | FSetOver _ \<Rightarrow> False) nd LEN s (fb_index x) = Inr s1"
    by (simp add: fb_call_body)
  have l: "length (fb_words s1) = length (fb_words s)"
    by (simp add: fb_set_body_Inr(2)[OF b])
  have "fb_size_ok nd LEN s1"
    by (rule fb_set_body_size_ok[OF b Cons.prems(2,3)])
  with Cons.IH[OF 2] Cons.prems(3) l show ?case by simp
qed

lemma fb_nwords_bits: "32 * fb_nwords LEN \<le> LEN + 32"
  unfolding fb_nwords_def by arith

lemma fb_ctor_length: "length (fb_words (FixedBitset_ctor LEN)) = fb_nwords LEN"
  by (simp add: FixedBitset_ctor_def)

lemma fb_bit_ctor: "j < 32 * fb_nwords LEN \<Longrightarrow> \<not> fb_bit (FixedBitset_ctor LEN) j"
  by (simp add: fb_bit_def FixedBitset_ctor_def)

lemma fb_calls_ctor_bits:
  assumes "fb_calls nd LEN (FixedBitset_ctor LEN) xs = Inr s'"
  shows "{j. j < 32 * fb_nwords LEN \<and> fb_bit s' j} = unat ` fb_index ` set xs"
proof -
  have "\<And>j. j < 32 * fb_nwords LEN \<Longrightarrow> fb_bit s' j = (j \<in> unat ` fb_index ` set xs)"
    using fb_calls_bit[OF assms] fb_bit_ctor fb_ctor_length by simp
  moreover have "\<And>j. j \<in> unat ` fb_index ` set xs \<Longrightarrow> j < 32 * fb_nwords LEN"
    using fb_calls_index[OF assms] fb_ctor_length by auto
  ultimately show ?thesis by blast
qed

lemma fb_calls_distinct_length:
  assumes "fb_calls nd LEN s xs = Inr s'" "distinct (map fb_index xs)"
  shows "length xs = card (unat ` fb_index ` set xs)"
    and "length xs \<le> 32 * length (fb_words s)"
proof -
  have inj: "inj_on unat (fb_index ` set xs)" by (auto simp add: inj_on_def word_unat_eq_iff)
  have "card (unat ` fb_index ` set xs) = card (fb_index ` set xs)"
    by (rule card_image[OF inj])
  also have "\<dots> = card (set (map fb_index xs))" by simp
  also have "\<dots> = length xs" using distinct_card[OF assms(2)] by simp
  finally show 1: "length xs = card (unat ` fb_index ` set xs)" by simp
  have "unat ` fb_index ` set xs \<subseteq> {..<32 * length (fb_words s)}"
    using fb_calls_index[OF assms(1)] by auto
  then have "card (unat ` fb_index ` set xs) \<le> card {..<32 * length (fb_words s)}"
    by (intro card_mono) simp_all
  with 1 show "length xs \<le> 32 * length (fb_words s)" by simp
qed

lemma fb_popcount_card: "fb_popcount LEN s = card {j. j < 32 * fb_nwords LEN \<and> fb_bit s j}"
proof -
  have "{i. i < length [0..<32 * fb_nwords LEN] \<and> fb_bit s ([0..<32 * fb_nwords LEN] ! i)} =
        {j. j < 32 * fb_nwords LEN \<and> fb_bit s j}"
    by auto
  then show ?thesis
    by (simp only: fb_popcount_def length_filter_conv_card)
qed

text \<open>The calls that the statements below run on a fresh \<^verbatim>\<open>FixedBitset\<close>.\<close>

lemmas fb_call_defs =
  FixedBitset_set_def FixedBitset_setOver_def fb_set_body_def FixedBitset_ctor_def
  assert_holds_def bit_of_def bit_mask_def

lemma fb_run_3_7:
  assumes "8 \<le> LEN"
  shows "fb_calls nd LEN (FixedBitset_ctor LEN) [FSet 3, FSet 7] =
         Inr \<lparr>fb_cnt = 2, fb_size = 8, fb_words = (replicate (fb_nwords LEN) 0)[0 := 136]\<rparr>"
  using assms by (simp add: fb_call_defs fb_nwords_def)

lemma fb_run_3_7_at_8:
  "fb_calls False 8 (FixedBitset_ctor 8) [FSet 3, FSet 7] =
     Inr \<lparr>fb_cnt = 2, fb_size = 8, fb_words = [136]\<rparr>"
  using fb_run_3_7[of 8 False] by (simp add: fb_nwords_def)

lemma fb_run_7_3_3_at_8:
  "fb_calls True 8 (FixedBitset_ctor 8) [FSetOver 7, FSet 3, FSetOver 3] =
     Inr \<lparr>fb_cnt = 3, fb_size = 8, fb_words = [136]\<rparr>"
  by (simp add: fb_call_defs fb_nwords_def)

lemma fb_run_3_at_8:
  "fb_calls False 8 (FixedBitset_ctor 8) [FSet 3] =
     Inr \<lparr>fb_cnt = 1, fb_size = 4, fb_words = [8]\<rparr>"
  by (simp add: fb_call_defs fb_nwords_def)

section \<open>FixedBitset: the count\<close>

text \<open>
  Claim C5 as stated, that \<^verbatim>\<open>count()\<close> is the number of bits ever set to 1, fails when an
  index repeats: after \<^verbatim>\<open>setOver(3)\<close> twice on a fresh \<^verbatim>\<open>FixedBitset<8>\<close> the count is 2
  and one bit is 1.
\<close>

theorem FixedBitset_count_counterexample:
  "fb_calls False 8 (FixedBitset_ctor 8) [FSetOver 3, FSetOver 3] =
     Inr \<lparr>fb_cnt = 2, fb_size = 4, fb_words = [8]\<rparr> \<and>
   FixedBitset_count \<lparr>fb_cnt = 2, fb_size = 4, fb_words = [8]\<rparr> = 2 \<and>
   fb_popcount 8 \<lparr>fb_cnt = 2, fb_size = 4, fb_words = [8]\<rparr> = 1 \<and>
   unat (FixedBitset_count \<lparr>fb_cnt = 2, fb_size = 4, fb_words = [8]\<rparr>) \<noteq>
     fb_popcount 8 \<lparr>fb_cnt = 2, fb_size = 4, fb_words = [8]\<rparr>"
proof (intro conjI)
  show "fb_calls False 8 (FixedBitset_ctor 8) [FSetOver 3, FSetOver 3] =
     Inr \<lparr>fb_cnt = 2, fb_size = 4, fb_words = [8]\<rparr>"
    by (simp add: fb_call_defs fb_nwords_def)
  show "FixedBitset_count \<lparr>fb_cnt = 2, fb_size = 4, fb_words = [8]\<rparr> = 2"
    by (simp add: FixedBitset_count_def)
  show pop: "fb_popcount 8 \<lparr>fb_cnt = 2, fb_size = 4, fb_words = [8]\<rparr> = 1"
    by code_simp
  show "unat (FixedBitset_count \<lparr>fb_cnt = 2, fb_size = 4, fb_words = [8]\<rparr>) \<noteq>
     fb_popcount 8 \<lparr>fb_cnt = 2, fb_size = 4, fb_words = [8]\<rparr>"
    using pop by (simp add: FixedBitset_count_def)
qed

text \<open>
  Claim C5, as the code has it: \<^verbatim>\<open>count()\<close> is the number of \<^verbatim>\<open>set\<close> and \<^verbatim>\<open>setOver\<close> calls made
  so far, modulo \<open>2^64\<close>; it does not decrease as long as the counter does not wrap; and
  on a fresh bitset it is the number of bits that are 1 when the calls have distinct
  indices.
\<close>

theorem FixedBitset_count_calls:
  assumes "fb_calls nd LEN s xs = Inr s'"
  shows "FixedBitset_count s' = FixedBitset_count s + of_nat (length xs) \<and>
         (unat (FixedBitset_count s) + length xs < 2 ^ 64 \<longrightarrow>
            unat (FixedBitset_count s') = unat (FixedBitset_count s) + length xs \<and>
            FixedBitset_count s \<le> FixedBitset_count s') \<and>
         (s = FixedBitset_ctor LEN \<and> distinct (map fb_index xs) \<and> LEN < 2 ^ 31 \<longrightarrow>
            unat (FixedBitset_count s') = fb_popcount LEN s')"
proof (intro conjI impI)
  show c: "FixedBitset_count s' = FixedBitset_count s + of_nat (length xs)"
    using fb_calls_cnt[OF assms] by (simp add: FixedBitset_count_def)
  {
    assume b: "unat (FixedBitset_count s) + length xs < 2 ^ 64"
    then have "unat (word_of_nat (length xs) :: size_t) = length xs"
      by (simp add: unat_of_nat take_bit_nat_eq_self)
    with b show u: "unat (FixedBitset_count s') = unat (FixedBitset_count s) + length xs"
      by (simp add: c unat_add_lem[THEN iffD1])
    then show "FixedBitset_count s \<le> FixedBitset_count s'"
      by (simp add: word_le_nat_alt)
  }
  {
    assume a: "s = FixedBitset_ctor LEN \<and> distinct (map fb_index xs) \<and> LEN < 2 ^ 31"
    then have run: "fb_calls nd LEN (FixedBitset_ctor LEN) xs = Inr s'" using assms by simp
    from a have d: "distinct (map fb_index xs)" by simp
    have "length xs \<le> 32 * fb_nwords LEN"
      using fb_calls_distinct_length(2)[OF run d] fb_ctor_length by simp
    also have "\<dots> < 2 ^ 64"
    proof -
      have "LEN + 32 < 2 ^ 64" using a by simp
      with fb_nwords_bits[of LEN] show ?thesis by (rule le_less_trans)
    qed
    finally have "unat (word_of_nat (length xs) :: size_t) = length xs"
      by (simp add: unat_of_nat take_bit_nat_eq_self)
    moreover have "fb_cnt s' = word_of_nat (length xs)"
      using fb_calls_cnt[OF run] by (simp add: FixedBitset_ctor_def)
    ultimately have "unat (FixedBitset_count s') = length xs"
      by (simp add: FixedBitset_count_def)
    also have "\<dots> = card (unat ` fb_index ` set xs)"
      by (rule fb_calls_distinct_length(1)[OF run d])
    also have "\<dots> = fb_popcount LEN s'"
      by (simp only: fb_calls_ctor_bits[OF run] fb_popcount_card)
    finally show "unat (FixedBitset_count s') = fb_popcount LEN s'" .
  }
qed

text \<open>The theorem at \<^verbatim>\<open>set(3); set(7)\<close> on a fresh \<^verbatim>\<open>FixedBitset<8>\<close>.\<close>

theorem FixedBitset_count_calls_witness:
  "fb_calls False 8 (FixedBitset_ctor 8) [FSet 3, FSet 7] =
     Inr \<lparr>fb_cnt = 2, fb_size = 8, fb_words = [136]\<rparr> \<and>
   unat (FixedBitset_count (FixedBitset_ctor 8)) + length [FSet 3, FSet 7] < 2 ^ 64 \<and>
   distinct (map fb_index [FSet 3, FSet 7]) \<and> (8::nat) < 2 ^ 31 \<and>
   FixedBitset_count \<lparr>fb_cnt = 2, fb_size = 8, fb_words = [136]\<rparr> = 2 \<and>
   FixedBitset_count (FixedBitset_ctor 8) \<le>
     FixedBitset_count \<lparr>fb_cnt = 2, fb_size = 8, fb_words = [136]\<rparr> \<and>
   fb_popcount 8 \<lparr>fb_cnt = 2, fb_size = 8, fb_words = [136]\<rparr> = 2"
proof -
  let ?s = "\<lparr>fb_cnt = 2, fb_size = 8, fb_words = [136]\<rparr>"
  have c0: "FixedBitset_count (FixedBitset_ctor 8) = 0"
    by (simp add: FixedBitset_count_def FixedBitset_ctor_def)
  have b: "unat (FixedBitset_count (FixedBitset_ctor 8)) + length [FSet 3, FSet 7] < 2 ^ 64"
    by (simp add: c0)
  have d: "distinct (map fb_index [FSet 3, FSet 7])" by simp
  have l: "(8::nat) < 2 ^ 31" by simp
  note t = FixedBitset_count_calls[OF fb_run_3_7_at_8]
  from t have "FixedBitset_count ?s =
      FixedBitset_count (FixedBitset_ctor 8) + of_nat (length [FSet 3, FSet 7])"
    by (rule conjunct1)
  then have c2: "FixedBitset_count ?s = 2" by (simp add: c0)
  from t b have m: "FixedBitset_count (FixedBitset_ctor 8) \<le> FixedBitset_count ?s" by blast
  from t d l have "unat (FixedBitset_count ?s) = fb_popcount 8 ?s" by blast
  then have k: "fb_popcount 8 ?s = 2" by (simp add: c2)
  from fb_run_3_7_at_8 b d l c2 m k show ?thesis by blast
qed

section \<open>FixedBitset: clear\<close>

text \<open>
  Claim C6: \<^verbatim>\<open>clear()\<close> zeroes every word, so that \<^verbatim>\<open>test(i)\<close> is false for every \<open>i < LEN\<close>,
  and leaves \<^verbatim>\<open>count()\<close> and \<^verbatim>\<open>size()\<close> as they were.
\<close>

theorem FixedBitset_clear_frame:
  "FixedBitset_count (FixedBitset_clear LEN s) = FixedBitset_count s \<and>
   FixedBitset_size (FixedBitset_clear LEN s) = FixedBitset_size s \<and>
   fb_words (FixedBitset_clear LEN s) = replicate (fb_nwords LEN) 0 \<and>
   (\<forall>i. unat i < LEN \<longrightarrow> FixedBitset_test nd LEN (FixedBitset_clear LEN s) i = Inr False)"
proof (intro conjI allI impI)
  fix i :: size_t assume i: "unat i < LEN"
  then have "unat i div 32 < fb_nwords LEN" by (simp add: fb_nwords_def)
  with i show "FixedBitset_test nd LEN (FixedBitset_clear LEN s) i = Inr False"
    by (simp add: FixedBitset_test_def FixedBitset_clear_def assert_holds_def unat_shift5
        bit_of_cases)
qed (simp_all add: FixedBitset_clear_def FixedBitset_count_def FixedBitset_size_def)

text \<open>The theorem at a \<^verbatim>\<open>FixedBitset<8>\<close> that holds the bits 3 and 7.\<close>

theorem FixedBitset_clear_frame_witness:
  "unat (3::size_t) < 8 \<and>
   FixedBitset_test False 8 \<lparr>fb_cnt = 2, fb_size = 8, fb_words = [136]\<rparr> 3 = Inr True \<and>
   FixedBitset_test False 8
     (FixedBitset_clear 8 \<lparr>fb_cnt = 2, fb_size = 8, fb_words = [136]\<rparr>) 3 = Inr False \<and>
   FixedBitset_count (FixedBitset_clear 8 \<lparr>fb_cnt = 2, fb_size = 8, fb_words = [136]\<rparr>) = 2 \<and>
   FixedBitset_size (FixedBitset_clear 8 \<lparr>fb_cnt = 2, fb_size = 8, fb_words = [136]\<rparr>) = 8"
  using FixedBitset_clear_frame[of 8 "\<lparr>fb_cnt = 2, fb_size = 8, fb_words = [136]\<rparr>" False]
  by (simp add: FixedBitset_test_def FixedBitset_clear_def assert_holds_def bit_of_def
      FixedBitset_count_def FixedBitset_size_def fb_nwords_def)

section \<open>FixedBitset: str\<close>

lemma str_loop_neg: "i < 0 \<Longrightarrow> str_loop nd LEN s i oss = Inr oss"
  using str_loop.simps[of nd LEN s i oss] by simp

lemma str_loop_nonneg:
  "0 \<le> i \<Longrightarrow> FixedBitset_test nd LEN s (word_of_int i) = Inr b \<Longrightarrow>
   str_loop nd LEN s i oss = str_loop nd LEN s (i - 1) (oss @ (if b then ''1'' else ''0''))"
  using str_loop.simps[of nd LEN s i oss] by simp

lemma str_loop_render:
  assumes "n \<le> 32 * length (fb_words s)" "assert_holds nd (n \<le> LEN)" "n < 2 ^ 64"
  shows "str_loop nd LEN s (int n - 1) oss =
         Inr (oss @ map (\<lambda>j. if fb_bit s j then CHR ''1'' else CHR ''0'') (rev [0..<n]))"
  using assms
proof (induction n arbitrary: oss)
  case 0
  show ?case by (simp add: str_loop_neg)
next
  case (Suc n)
  have n: "n \<le> 32 * length (fb_words s)" "assert_holds nd (n \<le> LEN)" "n < 2 ^ 64"
    using Suc.prems by (auto simp add: assert_holds_def)
  have a: "assert_holds nd (n < LEN)" using Suc.prems(2) by (auto simp add: assert_holds_def)
  have u: "unat (word_of_int (int n) :: size_t) = n"
    using n(3) by (simp add: unat_of_nat take_bit_nat_eq_self)
  have "n < length (fb_words s) * 32" using Suc.prems(1) by simp
  then have "n div 32 < length (fb_words s)" by (rule less_mult_imp_div_less)
  then have t: "FixedBitset_test nd LEN s (word_of_int (int n)) = Inr (fb_bit s n)"
    using fb_test_eq[of nd "word_of_int (int n)" LEN s] a u by simp
  have "str_loop nd LEN s (int (Suc n) - 1) oss =
        str_loop nd LEN s (int n - 1) (oss @ (if fb_bit s n then ''1'' else ''0''))"
    using str_loop_nonneg[OF _ t, of oss] by simp
  also have "\<dots> = Inr ((oss @ (if fb_bit s n then ''1'' else ''0'')) @
                    map (\<lambda>j. if fb_bit s j then CHR ''1'' else CHR ''0'') (rev [0..<n]))"
    by (rule Suc.IH[OF n])
  finally show ?case by simp
qed

text \<open>The conversion \<^verbatim>\<open>(int)size()\<close> of a size below \<open>2^31\<close>.\<close>

lemma int_of_size:
  assumes "unat (x::size_t) < 2 ^ 31"
  shows "sint (ucast x :: 32 word) = int (unat x)"
proof -
  define n where "n = unat x"
  have n: "n < 2147483648" using assms by (simp add: n_def)
  have "(ucast x :: 32 word) = word_of_int (int n)"
    by (simp add: word_of_int_uint n_def)
  then have "sint (ucast x :: 32 word) = (int n + 2 ^ 31) mod 2 ^ 32 - 2 ^ 31"
    by (simp only: int_word_sint) simp
  also have "\<dots> = int n"
    using n by simp
  finally show ?thesis by (simp only: n_def)
qed

lemma fb_str_render:
  assumes "fb_size_ok nd LEN s" "unat (fb_size s) < 2 ^ 31"
  shows "FixedBitset_str nd LEN s = Inr (spec_str s)"
proof -
  from assms(1) have ok: "unat (fb_size s) \<le> 32 * length (fb_words s)"
    "assert_holds nd (unat (fb_size s) \<le> LEN)"
    by (simp_all add: fb_size_ok_def)
  have "unat (fb_size s) < 2 ^ 64" using assms(2) by simp
  from str_loop_render[OF ok this, of "[]"] int_of_size[OF assms(2)]
  show ?thesis by (simp add: FixedBitset_str_def FixedBitset_size_def spec_str_def)
qed

lemma fb_calls_ctor_str:
  assumes "fb_calls nd LEN (FixedBitset_ctor LEN) xs = Inr s" "LEN + 32 < 2 ^ 31"
  shows "FixedBitset_str nd LEN s = Inr (spec_str s)"
proof -
  have l: "length (fb_words s) = fb_nwords LEN"
    using fb_calls_length[OF assms(1)] fb_ctor_length by simp
  have b: "32 * fb_nwords LEN < 2 ^ 31"
    using fb_nwords_bits[of LEN] assms(2) by simp
  then have b64: "32 * length (fb_words (FixedBitset_ctor LEN)) < 2 ^ 64"
    by (simp add: fb_ctor_length)
  have "fb_size_ok nd LEN (FixedBitset_ctor LEN)"
    by (simp add: fb_size_ok_def FixedBitset_ctor_def assert_holds_def)
  from fb_calls_size_ok[OF b64 assms(1) this] have ok: "fb_size_ok nd LEN s" .
  then have "unat (fb_size s) \<le> 32 * length (fb_words s)" by (simp add: fb_size_ok_def)
  with b l have "unat (fb_size s) < 2 ^ 31" by simp
  with ok show ?thesis by (rule fb_str_render)
qed

text \<open>
  Claim C7: on a fresh \<^verbatim>\<open>FixedBitset\<close> (of at least 8 bits), after \<^verbatim>\<open>set(3)\<close> and \<^verbatim>\<open>set(7)\<close>,
  \<^verbatim>\<open>count()\<close> is 2, \<^verbatim>\<open>size()\<close> is 8 and \<^verbatim>\<open>str()\<close> is \<open>10001000\<close>.  In general \<^verbatim>\<open>str()\<close>
  renders the bits from index \<^verbatim>\<open>size()-1\<close> down to 0: after any calls on a fresh bitset,
  and in any state whose \<^verbatim>\<open>_size\<close> is within the array and fits an \<^verbatim>\<open>int\<close>; it is empty
  when \<^verbatim>\<open>size()\<close> is 0.
\<close>

theorem FixedBitset_str_render:
  "(8 \<le> LEN \<longrightarrow>
      (\<exists>t. fb_calls nd LEN (FixedBitset_ctor LEN) [FSet 3, FSet 7] = Inr t \<and>
           FixedBitset_count t = 2 \<and> FixedBitset_size t = 8 \<and>
           FixedBitset_str nd LEN t = Inr ''10001000'')) \<and>
   (fb_calls nd LEN (FixedBitset_ctor LEN) xs = Inr s \<and> LEN + 32 < 2 ^ 31 \<longrightarrow>
      FixedBitset_str nd LEN s = Inr (spec_str s)) \<and>
   (fb_size_ok nd LEN s' \<and> unat (FixedBitset_size s') < 2 ^ 31 \<longrightarrow>
      FixedBitset_str nd LEN s' = Inr (spec_str s')) \<and>
   (FixedBitset_size s' = 0 \<longrightarrow> FixedBitset_str nd LEN s' = Inr [])"
proof (intro conjI impI)
  assume L: "8 \<le> LEN"
  let ?t = "\<lparr>fb_cnt = 2, fb_size = 8, fb_words = (replicate (fb_nwords LEN) 0)[0 := 136]\<rparr>"
  have "fb_size_ok nd LEN ?t"
    using L by (simp add: fb_size_ok_def assert_holds_def fb_nwords_def)
  then have "FixedBitset_str nd LEN ?t = Inr (spec_str ?t)"
    by (rule fb_str_render) simp
  also have "\<dots> = Inr (map (\<lambda>j. if bit (136::uint32_t) (j mod 32) then CHR ''1'' else CHR ''0'')
                      (rev [0..<8]))"
    by (simp add: spec_str_def fb_bit_def fb_nwords_def)
  also have "\<dots> = Inr ''10001000''"
    by code_simp
  finally have "FixedBitset_str nd LEN ?t = Inr ''10001000''" .
  with fb_run_3_7[OF L, of nd]
  show "\<exists>t. fb_calls nd LEN (FixedBitset_ctor LEN) [FSet 3, FSet 7] = Inr t \<and>
           FixedBitset_count t = 2 \<and> FixedBitset_size t = 8 \<and>
           FixedBitset_str nd LEN t = Inr ''10001000''"
    by (simp add: FixedBitset_count_def FixedBitset_size_def)
next
  assume "fb_calls nd LEN (FixedBitset_ctor LEN) xs = Inr s \<and> LEN + 32 < 2 ^ 31"
  then show "FixedBitset_str nd LEN s = Inr (spec_str s)"
    using fb_calls_ctor_str[of nd LEN xs s] by simp
next
  assume "fb_size_ok nd LEN s' \<and> unat (FixedBitset_size s') < 2 ^ 31"
  then show "FixedBitset_str nd LEN s' = Inr (spec_str s')"
    using fb_str_render[of nd LEN s'] by (simp add: FixedBitset_size_def)
next
  assume "FixedBitset_size s' = 0"
  then show "FixedBitset_str nd LEN s' = Inr []"
    by (simp add: FixedBitset_str_def str_loop_neg)
qed

text \<open>The theorem at \<^verbatim>\<open>FixedBitset<8>\<close>, after \<^verbatim>\<open>set(3); set(7)\<close> and when fresh.\<close>

theorem FixedBitset_str_render_witness:
  "(8::nat) \<le> 8 \<and> (8::nat) + 32 < 2 ^ 31 \<and>
   fb_calls False 8 (FixedBitset_ctor 8) [FSet 3, FSet 7] =
     Inr \<lparr>fb_cnt = 2, fb_size = 8, fb_words = [136]\<rparr> \<and>
   FixedBitset_str False 8 \<lparr>fb_cnt = 2, fb_size = 8, fb_words = [136]\<rparr> = Inr ''10001000'' \<and>
   spec_str \<lparr>fb_cnt = 2, fb_size = 8, fb_words = [136]\<rparr> = ''10001000'' \<and>
   FixedBitset_size (FixedBitset_ctor 8) = 0 \<and>
   FixedBitset_str False 8 (FixedBitset_ctor 8) = Inr []"
proof -
  let ?s = "\<lparr>fb_cnt = 2, fb_size = 8, fb_words = [136]\<rparr>"
  have z: "FixedBitset_size (FixedBitset_ctor 8) = 0"
    by (simp add: FixedBitset_size_def FixedBitset_ctor_def)
  have b: "(8::nat) + 32 < 2 ^ 31" by simp
  note t = FixedBitset_str_render[of 8 False "[FSet 3, FSet 7]" ?s "FixedBitset_ctor 8"]
  from t fb_run_3_7_at_8
  have 1: "FixedBitset_str False 8 ?s = Inr ''10001000''" by simp
  from t fb_run_3_7_at_8 b have "FixedBitset_str False 8 ?s = Inr (spec_str ?s)" by blast
  with 1 have 2: "spec_str ?s = ''10001000''" by simp
  from t z have 3: "FixedBitset_str False 8 (FixedBitset_ctor 8) = Inr []" by blast
  from fb_run_3_7_at_8 b z 1 2 3 show ?thesis by simp
qed

section \<open>FixedBitset: equality\<close>

lemma eq_loop_iff:
  "eq_loop n i a b = (\<forall>k. i \<le> k \<and> k < n \<longrightarrow> a ! k = b ! k)"
proof (induction n i a b rule: eq_loop.induct)
  case (1 n i a b)
  show ?case
  proof (cases "i < n")
    case True
    show ?thesis
    proof (cases "a ! i = b ! i")
      case eq: True
      have "(\<forall>k. i \<le> k \<and> k < n \<longrightarrow> a ! k = b ! k) =
            (\<forall>k. Suc i \<le> k \<and> k < n \<longrightarrow> a ! k = b ! k)"
        using eq by (metis Suc_leI le_neq_implies_less Suc_leD)
      with True eq "1.IH" show ?thesis by (subst eq_loop.simps) simp
    next
      case False
      with True show ?thesis by (subst eq_loop.simps) auto
    qed
  next
    case False
    then show ?thesis by (subst eq_loop.simps) auto
  qed
qed

lemma ne_loop_eq_loop: "ne_loop n i a b = (\<not> eq_loop n i a b)"
proof (induction n i a b rule: eq_loop.induct)
  case (1 n i a b)
  show ?case
  proof (cases "i < n \<and> a ! i = b ! i")
    case True
    with "1.IH" show ?thesis
      by (subst ne_loop.simps, subst eq_loop.simps) simp
  next
    case False
    then show ?thesis
      by (subst ne_loop.simps, subst eq_loop.simps) auto
  qed
qed

lemma words_eq_iff_bits:
  assumes "length (a::uint32_t list) = n" "length b = n"
  shows "(a = b) =
         (\<forall>j<32 * n. bit (a ! (j div 32)) (j mod 32) = bit (b ! (j div 32)) (j mod 32))"
proof
  assume "a = b"
  then show "\<forall>j<32 * n. bit (a ! (j div 32)) (j mod 32) = bit (b ! (j div 32)) (j mod 32)"
    by simp
next
  assume h: "\<forall>j<32 * n. bit (a ! (j div 32)) (j mod 32) = bit (b ! (j div 32)) (j mod 32)"
  show "a = b"
  proof (rule nth_equalityI)
    show "length a = length b" using assms by simp
  next
    fix k assume k: "k < length a"
    show "a ! k = b ! k"
    proof (rule bit_word_eqI)
      fix m assume "m < LENGTH(32)"
      then have m: "m < 32" by simp
      then have "32 * k + m < 32 * n" using k assms by simp
      from h[rule_format, OF this] m show "bit (a ! k) m = bit (b ! k) m" by simp
    qed
  qed
qed

text \<open>
  Claim C8: \<^verbatim>\<open>operator==\<close> compares all words of the array, whatever \<^verbatim>\<open>size()\<close> and
  \<^verbatim>\<open>count()\<close> are: two bitsets are equal exactly when they agree on every bit of the
  array, that is, when the calls that built them set the same indices, in any order and
  by \<^verbatim>\<open>set\<close> or \<^verbatim>\<open>setOver\<close>; and \<^verbatim>\<open>operator!=\<close> is the negation of \<^verbatim>\<open>operator==\<close>.
\<close>

theorem FixedBitset_equality:
  assumes "length (fb_words a) = fb_nwords LEN" "length (fb_words b) = fb_nwords LEN"
  shows "(FixedBitset_eq LEN a b \<longleftrightarrow> fb_words a = fb_words b) \<and>
         (FixedBitset_eq LEN a b \<longleftrightarrow> (\<forall>j<32 * fb_nwords LEN. fb_bit a j = fb_bit b j)) \<and>
         (FixedBitset_ne LEN a b \<longleftrightarrow> \<not> FixedBitset_eq LEN a b) \<and>
         (\<forall>nd nd' xs ys.
            fb_calls nd LEN (FixedBitset_ctor LEN) xs = Inr a \<and>
            fb_calls nd' LEN (FixedBitset_ctor LEN) ys = Inr b \<longrightarrow>
            (FixedBitset_eq LEN a b \<longleftrightarrow> fb_index ` set xs = fb_index ` set ys))"
proof (intro conjI allI impI)
  have "(fb_words a = fb_words b) = (\<forall>k<fb_nwords LEN. fb_words a ! k = fb_words b ! k)"
    using assms by (auto intro: nth_equalityI)
  then show w: "FixedBitset_eq LEN a b \<longleftrightarrow> fb_words a = fb_words b"
    by (simp add: FixedBitset_eq_def eq_loop_iff)
  show bits: "FixedBitset_eq LEN a b \<longleftrightarrow> (\<forall>j<32 * fb_nwords LEN. fb_bit a j = fb_bit b j)"
    using words_eq_iff_bits[OF assms] by (simp add: w fb_bit_def)
  show "FixedBitset_ne LEN a b \<longleftrightarrow> \<not> FixedBitset_eq LEN a b"
    by (simp add: FixedBitset_ne_def FixedBitset_eq_def ne_loop_eq_loop)
  fix nd nd' xs ys
  assume r: "fb_calls nd LEN (FixedBitset_ctor LEN) xs = Inr a \<and>
            fb_calls nd' LEN (FixedBitset_ctor LEN) ys = Inr b"
  have A: "{j. j < 32 * fb_nwords LEN \<and> fb_bit a j} = unat ` fb_index ` set xs"
    by (rule fb_calls_ctor_bits[OF r[THEN conjunct1]])
  have B: "{j. j < 32 * fb_nwords LEN \<and> fb_bit b j} = unat ` fb_index ` set ys"
    by (rule fb_calls_ctor_bits[OF r[THEN conjunct2]])
  have "(\<forall>j<32 * fb_nwords LEN. fb_bit a j = fb_bit b j) \<longleftrightarrow>
        {j. j < 32 * fb_nwords LEN \<and> fb_bit a j} = {j. j < 32 * fb_nwords LEN \<and> fb_bit b j}"
    by (simp add: set_eq_iff) blast
  also have "\<dots> \<longleftrightarrow> unat ` fb_index ` set xs = unat ` fb_index ` set ys"
    by (simp only: A B)
  also have "\<dots> \<longleftrightarrow> fb_index ` set xs = fb_index ` set ys"
    by (rule inj_image_eq_iff) (simp add: inj_on_def word_unat_eq_iff)
  finally show "FixedBitset_eq LEN a b \<longleftrightarrow> fb_index ` set xs = fb_index ` set ys"
    by (simp only: bits)
qed

text \<open>
  The theorem at two \<^verbatim>\<open>FixedBitset<8>\<close> built by different calls that set the bits 3 and
  7, and at one of them and a third that lacks bit 7.
\<close>

theorem FixedBitset_equality_witness:
  "length (fb_words \<lparr>fb_cnt = 2, fb_size = 8, fb_words = [136]\<rparr>) = fb_nwords 8 \<and>
   length (fb_words \<lparr>fb_cnt = 3, fb_size = 8, fb_words = [136]\<rparr>) = fb_nwords 8 \<and>
   length (fb_words \<lparr>fb_cnt = 1, fb_size = 4, fb_words = [8]\<rparr>) = fb_nwords 8 \<and>
   fb_calls False 8 (FixedBitset_ctor 8) [FSet 3, FSet 7] =
     Inr \<lparr>fb_cnt = 2, fb_size = 8, fb_words = [136]\<rparr> \<and>
   fb_calls True 8 (FixedBitset_ctor 8) [FSetOver 7, FSet 3, FSetOver 3] =
     Inr \<lparr>fb_cnt = 3, fb_size = 8, fb_words = [136]\<rparr> \<and>
   fb_calls False 8 (FixedBitset_ctor 8) [FSet 3] =
     Inr \<lparr>fb_cnt = 1, fb_size = 4, fb_words = [8]\<rparr> \<and>
   FixedBitset_eq 8 \<lparr>fb_cnt = 2, fb_size = 8, fb_words = [136]\<rparr>
                    \<lparr>fb_cnt = 3, fb_size = 8, fb_words = [136]\<rparr> \<and>
   \<not> FixedBitset_ne 8 \<lparr>fb_cnt = 2, fb_size = 8, fb_words = [136]\<rparr>
                      \<lparr>fb_cnt = 3, fb_size = 8, fb_words = [136]\<rparr> \<and>
   \<not> FixedBitset_eq 8 \<lparr>fb_cnt = 2, fb_size = 8, fb_words = [136]\<rparr>
                      \<lparr>fb_cnt = 1, fb_size = 4, fb_words = [8]\<rparr> \<and>
   FixedBitset_ne 8 \<lparr>fb_cnt = 2, fb_size = 8, fb_words = [136]\<rparr>
                    \<lparr>fb_cnt = 1, fb_size = 4, fb_words = [8]\<rparr>"
proof -
  let ?a = "\<lparr>fb_cnt = 2, fb_size = 8, fb_words = [136]\<rparr>"
  let ?b = "\<lparr>fb_cnt = 3, fb_size = 8, fb_words = [136]\<rparr>"
  let ?c = "\<lparr>fb_cnt = 1, fb_size = 4, fb_words = [8]\<rparr>"
  have la: "length (fb_words ?a) = fb_nwords 8" by (simp add: fb_nwords_def)
  have lb: "length (fb_words ?b) = fb_nwords 8" by (simp add: fb_nwords_def)
  have lc: "length (fb_words ?c) = fb_nwords 8" by (simp add: fb_nwords_def)
  note t = FixedBitset_equality[OF la lb]
  note u = FixedBitset_equality[OF la lc]
  from t have "FixedBitset_eq 8 ?a ?b \<longleftrightarrow> fb_words ?a = fb_words ?b" by (rule conjunct1)
  then have e: "FixedBitset_eq 8 ?a ?b" by simp
  from t have "FixedBitset_ne 8 ?a ?b \<longleftrightarrow> \<not> FixedBitset_eq 8 ?a ?b" by blast
  with e have n: "\<not> FixedBitset_ne 8 ?a ?b" by simp
  from u have "FixedBitset_eq 8 ?a ?c \<longleftrightarrow> fb_words ?a = fb_words ?c" by (rule conjunct1)
  then have e': "\<not> FixedBitset_eq 8 ?a ?c" by simp
  from u have "FixedBitset_ne 8 ?a ?c \<longleftrightarrow> \<not> FixedBitset_eq 8 ?a ?c" by blast
  with e' have n': "FixedBitset_ne 8 ?a ?c" by simp
  from la lb lc fb_run_3_7_at_8 fb_run_7_3_3_at_8 fb_run_3_at_8 e n e' n' show ?thesis by blast
qed

section \<open>Capacity arithmetic\<close>

lemma and_not_7: "(y::size_t) AND - 8 = push_bit 3 (drop_bit 3 y)"
proof -
  have m: "(- 8::size_t) = NOT (mask 3)" by (simp add: mask_eq_exp_minus_1)
  show ?thesis
    unfolding m by (rule bit_word_eqI) (auto simp add: bit_simps)
qed

lemma unat_and_not_7: "unat ((y::size_t) AND - 8) = 8 * (unat y div 8)"
proof -
  have "unat y div 8 * 8 \<le> unat y" by simp
  with size_t_less[of y] have "unat (drop_bit 3 y) * unat (8::size_t) < 2 ^ 64"
    by (simp add: unat_shift3)
  then have "unat (drop_bit 3 y * 8) = unat (drop_bit 3 y) * unat (8::size_t)"
    by (rule unat_mult_64)
  then show ?thesis
    by (simp add: and_not_7 push_bit_eq_mult unat_shift3)
qed

lemma unat_Bitset_expand_sz:
  assumes "unat x < 2 ^ 63"
  shows "unat (Bitset_expand_sz x) = unat x + unat x div 2"
proof -
  have "unat x + unat (drop_bit (Suc 0) x) < 2 ^ 64"
    using assms unfolding unat_shift1 by simp
  then have "unat (x + drop_bit (Suc 0) x) = unat x + unat (drop_bit (Suc 0) x)"
    by (rule unat_add_64)
  then show ?thesis
    by (simp add: Bitset_expand_sz_def unat_shift1)
qed

lemma unat_SyncBitset_expand_sz:
  assumes "unat x < 2 ^ 63"
  shows "unat (SyncBitset_expand_sz x) = 8 * ((unat x + unat x div 2 + 7) div 8)"
proof -
  have 1: "unat (x + drop_bit (Suc 0) x) = unat x + unat x div 2"
    using unat_Bitset_expand_sz[OF assms] by (simp add: Bitset_expand_sz_def)
  have "unat (x + drop_bit (Suc 0) x) + unat (7::size_t) < 2 ^ 64"
    using assms unfolding 1 by simp
  then have "unat (x + drop_bit (Suc 0) x + 7) = unat (x + drop_bit (Suc 0) x) + unat (7::size_t)"
    by (rule unat_add_64)
  then show ?thesis
    by (simp add: SyncBitset_expand_sz_def unat_and_not_7 1)
qed

lemma expand_sz_increases:
  assumes "2 \<le> unat x" "unat x < 2 ^ 63"
  shows "x < Bitset_expand_sz x" and "x < SyncBitset_expand_sz x"
proof -
  have "unat (Bitset_expand_sz x) = unat x + unat x div 2"
    by (rule unat_Bitset_expand_sz[OF assms(2)])
  with assms(1) have "unat x < unat (Bitset_expand_sz x)" by simp
  then show "x < Bitset_expand_sz x" by (simp add: word_less_nat_alt)
  have "unat (SyncBitset_expand_sz x) = 8 * ((unat x + unat x div 2 + 7) div 8)"
    by (rule unat_SyncBitset_expand_sz[OF assms(2)])
  with assms(1) have "unat x < unat (SyncBitset_expand_sz x)" by arith
  then show "x < SyncBitset_expand_sz x" by (simp add: word_less_nat_alt)
qed

section \<open>The constructor\<close>

lemma replicate4: "replicate 4 x = [x, x, x, x]"
  by (simp add: numeral_eq_Suc)

lemma load_word_zeros:
  assumes "4 * k + 4 \<le> n"
  shows "load_word (replicate n (Some 0)) k = Inr 0"
proof -
  have "min 4 (n - 4 * k) = 4" using assms by simp
  then have "take 4 (drop (4 * k) (replicate n (Some (0::byte)))) =
             [Some 0, Some 0, Some 0, Some 0]"
    by (simp add: replicate4)
  with assms show ?thesis
    by (simp add: load_word_def word_of_bytes_def)
qed

lemma unat_nwords: "unat (drop_bit 5 (sz::size_t) + 1) = unat sz div 32 + 1"
proof -
  have "unat sz div 32 < 2 ^ 59" using size_t_less[of sz] by simp
  then have "unat (drop_bit 5 sz) + unat (1::size_t) < 2 ^ 64"
    by (simp add: unat_shift5)
  then have "unat (drop_bit 5 sz + 1) = unat (drop_bit 5 sz) + unat (1::size_t)"
    by (rule unat_add_64)
  then show ?thesis by (simp add: unat_shift5)
qed

lemma unat_nwords_bytes: "unat ((drop_bit 5 (sz::size_t) + 1) * 4) = 4 * (unat sz div 32 + 1)"
proof -
  have "unat sz div 32 < 2 ^ 59" using size_t_less[of sz] by simp
  then have "unat (drop_bit 5 sz + 1) * unat (4::size_t) < 2 ^ 64"
    by (simp add: unat_nwords)
  then have "unat ((drop_bit 5 sz + 1) * 4) = unat (drop_bit 5 sz + 1) * unat (4::size_t)"
    by (rule unat_mult_64)
  then show ?thesis by (simp add: unat_nwords)
qed

lemma unat_nwords_bits:
  assumes "unat sz div 32 + 1 < 2 ^ 59"
  shows "unat (push_bit 5 (drop_bit 5 (sz::size_t) + 1)) = 32 * (unat sz div 32 + 1)"
proof -
  have "unat (drop_bit 5 sz + 1) * unat (32::size_t) < 2 ^ 64"
    using assms by (simp add: unat_nwords)
  then have "unat ((drop_bit 5 sz + 1) * 32) = unat (drop_bit 5 sz + 1) * unat (32::size_t)"
    by (rule unat_mult_64)
  then show ?thesis by (simp add: unat_nwords push_bit_eq_mult)
qed

text \<open>The constructor fails only in the allocation; its \<^verbatim>\<open>memset\<close> covers the whole array.\<close>

lemma Bitset_ctor_cases:
  "Bitset_ctor heap sz =
     (if unat sz div 32 + 1 \<le> heap
      then Inr \<lparr>bs_sz = push_bit 5 (drop_bit 5 sz + 1),
                bs_words = replicate (4 * (unat sz div 32 + 1)) (Some 0)\<rparr>
      else Inl AllocFailed)"
  unfolding Bitset_ctor_def Let_def new_uint32_t_def memset_def unat_nwords unat_nwords_bytes
  by simp

lemma Bitset_ctor_Inr:
  assumes "heap < 2 ^ 59" "Bitset_ctor heap sz = Inr b"
  shows "unat sz div 32 + 1 \<le> heap"
    and "bs_words b = replicate (4 * (unat sz div 32 + 1)) (Some 0)"
    and "unat (bs_sz b) = 32 * (unat sz div 32 + 1)"
proof -
  from assms(2) show n: "unat sz div 32 + 1 \<le> heap"
    and b: "bs_words b = replicate (4 * (unat sz div 32 + 1)) (Some 0)"
    by (auto simp add: Bitset_ctor_cases split: if_splits)
  from assms(2) have "bs_sz b = push_bit 5 (drop_bit 5 sz + 1)"
    by (auto simp add: Bitset_ctor_cases split: if_splits)
  moreover from n assms(1) have "unat sz div 32 + 1 < 2 ^ 59" by simp
  ultimately show "unat (bs_sz b) = 32 * (unat sz div 32 + 1)"
    by (simp add: unat_nwords_bits)
qed

lemma Bitset_ctor_test:
  assumes "heap < 2 ^ 59" "Bitset_ctor heap sz = Inr b"
  shows "Bitset_test b i = Inr False"
proof -
  note r = Bitset_ctor_Inr[OF assms]
  show ?thesis
  proof (cases "i < bs_sz b")
    case False
    then show ?thesis by (simp add: Bitset_test_def)
  next
    case True
    then have "unat i < (unat sz div 32 + 1) * 32"
      using r(3) by (simp add: word_less_nat_alt)
    then have "unat i div 32 < unat sz div 32 + 1"
      by (rule less_mult_imp_div_less)
    then have "4 * (unat i div 32) + 4 \<le> 4 * (unat sz div 32 + 1)" by simp
    then have "load_word (replicate (4 * (unat sz div 32 + 1)) (Some 0)) (unat i div 32) = Inr 0"
      by (rule load_word_zeros)
    then have "load_word (bs_words b) (unat (drop_bit 5 i)) = Inr 0"
      by (simp add: r(2) unat_shift5)
    with True show ?thesis by (simp add: Bitset_test_def bit_of_def)
  qed
qed

text \<open>
  Claim C10: a growable bitset constructed with size hint \<open>sz\<close> has every bit false and
  the capacity \<open>32 * (sz div 32 + 1)\<close>, which exceeds \<open>sz\<close> and is at least 32.  The
  constructor of \<^verbatim>\<open>Bitset\<close> and of \<^verbatim>\<open>SyncBitset\<close> is \<open>Bitset_ctor\<close>.  The allocator is
  taken to refuse requests of \<open>2^59\<close> words (two exbibytes) or more, the only ones for
  which \<^verbatim>\<open>nwords << 5\<close> would wrap; the constructor returns a bitset whenever the
  allocator provides the words.
\<close>

theorem Bitset_ctor_capacity:
  assumes "heap < 2 ^ 59"
  shows "(unat sz div 32 + 1 \<le> heap \<longrightarrow> (\<exists>b. Bitset_ctor heap sz = Inr b)) \<and>
         (\<forall>b. Bitset_ctor heap sz = Inr b \<longrightarrow>
            unat (bs_sz b) = 32 * (unat sz div 32 + 1) \<and>
            unat sz < unat (bs_sz b) \<and> 32 \<le> unat (bs_sz b) \<and>
            length (bs_words b) = 4 * (unat (bs_sz b) div 32) \<and>
            (\<forall>i. Bitset_test b i = Inr False))"
proof (intro conjI allI impI)
  assume "unat sz div 32 + 1 \<le> heap"
  then show "\<exists>b. Bitset_ctor heap sz = Inr b" by (simp add: Bitset_ctor_cases)
next
  fix b assume r: "Bitset_ctor heap sz = Inr b"
  note c = Bitset_ctor_Inr[OF assms r]
  show "unat (bs_sz b) = 32 * (unat sz div 32 + 1)" by (rule c(3))
  from c(3) show "unat sz < unat (bs_sz b)" by arith
  from c(3) show "32 \<le> unat (bs_sz b)" by simp
  from c(2,3) show "length (bs_words b) = 4 * (unat (bs_sz b) div 32)" by simp
  fix i show "Bitset_test b i = Inr False" by (rule Bitset_ctor_test[OF assms r])
qed

text \<open>The bitsets that the statements below start from.\<close>

lemmas mem_defs = new_uint32_t_def memset_def memcpy_def

lemmas expand_defs =
  Bitset_expand_def SyncBitset_expand_def Bitset_expand_sz_def SyncBitset_expand_sz_def

lemma ctor_10: "Bitset_ctor 1000 10 = Inr \<lparr>bs_sz = 32, bs_words = replicate 4 (Some 0)\<rparr>"
  by (simp add: Bitset_ctor_def mem_defs)

lemma ctor_40: "Bitset_ctor 1000 40 = Inr \<lparr>bs_sz = 64, bs_words = replicate 8 (Some 0)\<rparr>"
  by (simp add: Bitset_ctor_def mem_defs)

text \<open>The theorem at the size hint 10.\<close>

theorem Bitset_ctor_capacity_witness:
  "(1000::nat) < 2 ^ 59 \<and> unat (10::size_t) div 32 + 1 \<le> 1000 \<and>
   Bitset_ctor 1000 10 = Inr \<lparr>bs_sz = 32, bs_words = replicate 4 (Some 0)\<rparr> \<and>
   unat (bs_sz \<lparr>bs_sz = 32, bs_words = replicate 4 (Some 0)\<rparr>) =
     32 * (unat (10::size_t) div 32 + 1) \<and>
   Bitset_test \<lparr>bs_sz = 32, bs_words = replicate 4 (Some 0)\<rparr> 5 = Inr False"
proof -
  have h: "(1000::nat) < 2 ^ 59" by simp
  from Bitset_ctor_capacity[OF h, of 10] ctor_10 show ?thesis by simp
qed

section \<open>Growth\<close>

lemma Bitset_expand_Inr:
  assumes "Bitset_expand heap s = Inr s'"
  shows "bs_sz s' = Bitset_expand_sz (bs_sz s)" and "unat (bs_sz s') div 32 \<le> heap"
  using assms
  by (auto simp add: Bitset_expand_def Let_def new_uint32_t_def unat_shift5
      split: sum.splits if_splits)

lemma SyncBitset_expand_Inr:
  assumes "SyncBitset_expand heap s = Inr s'"
  shows "bs_sz s' = SyncBitset_expand_sz (bs_sz s)" and "unat (bs_sz s') div 32 \<le> heap"
  using assms
  by (auto simp add: SyncBitset_expand_def Let_def new_uint32_t_def unat_shift5
      split: sum.splits if_splits)

lemma capacity_ok_less: "heap < 2 ^ 58 \<Longrightarrow> capacity_ok heap s \<Longrightarrow> unat (bs_sz s) < 2 ^ 63"
  unfolding capacity_ok_def by simp arith

lemma Bitset_expand_grows:
  assumes "heap < 2 ^ 58" "capacity_ok heap s" "Bitset_expand heap s = Inr s'"
  shows "capacity_ok heap s' \<and> bs_sz s < bs_sz s'"
proof -
  note r = Bitset_expand_Inr[OF assms(3)]
  have "2 \<le> unat (bs_sz s)" using assms(2) by (simp add: capacity_ok_def)
  from expand_sz_increases(1)[OF this capacity_ok_less[OF assms(1,2)]]
  have l: "bs_sz s < bs_sz s'" by (simp add: r(1))
  then have "unat (bs_sz s) < unat (bs_sz s')" by (simp add: word_less_nat_alt)
  with \<open>2 \<le> unat (bs_sz s)\<close> r(2) l show ?thesis by (simp add: capacity_ok_def)
qed

lemma SyncBitset_expand_grows:
  assumes "heap < 2 ^ 58" "capacity_ok heap s" "SyncBitset_expand heap s = Inr s'"
  shows "capacity_ok heap s' \<and> bs_sz s < bs_sz s'"
proof -
  note r = SyncBitset_expand_Inr[OF assms(3)]
  have "2 \<le> unat (bs_sz s)" using assms(2) by (simp add: capacity_ok_def)
  from expand_sz_increases(2)[OF this capacity_ok_less[OF assms(1,2)]]
  have l: "bs_sz s < bs_sz s'" by (simp add: r(1))
  then have "unat (bs_sz s) < unat (bs_sz s')" by (simp add: word_less_nat_alt)
  with \<open>2 \<le> unat (bs_sz s)\<close> r(2) l show ?thesis by (simp add: capacity_ok_def)
qed

text \<open>
  The loop returns whenever every \<open>expand\<close> that succeeds keeps a property \<open>P\<close> and
  increases the capacity: the distance of the capacity from \<open>2^64\<close> decreases.
\<close>

lemma grow_loop_returns:
  assumes step: "\<And>s s'. P s \<Longrightarrow> E s = Inr s' \<Longrightarrow> P s' \<and> bs_sz s < bs_sz s'"
    and "P s"
  shows "\<exists>r. grow_loop E nd i s = Some r \<and>
             (\<forall>s'. r = Inr s' \<longrightarrow> P s' \<and> bs_sz s \<le> bs_sz s' \<and> i < bs_sz s')"
  using assms(2)
proof (induction "2 ^ 64 - unat (bs_sz s)" arbitrary: s rule: less_induct)
  case less
  show ?case
  proof (cases "bs_sz s \<le> i")
    case False
    then have "grow_loop E nd i s = Some (Inr s)"
      by (subst grow_loop.simps) simp
    with False less.prems show ?thesis by simp
  next
    case True
    show ?thesis
    proof (cases "E s")
      case (Inl e)
      with True have "grow_loop E nd i s = Some (Inl e)"
        by (subst grow_loop.simps) simp
      then show ?thesis by simp
    next
      case (Inr s1)
      from step[OF less.prems Inr] have s1: "P s1" "bs_sz s < bs_sz s1" by simp_all
      with True Inr have eq: "grow_loop E nd i s = grow_loop E nd i s1"
        by (subst grow_loop.simps) (simp add: assert_holds_def)
      have "unat (bs_sz s) < unat (bs_sz s1)" using s1(2) by (simp add: word_less_nat_alt)
      moreover have "unat (bs_sz s1) < 2 ^ 64" using size_t_less[of "bs_sz s1"] by simp
      ultimately have "2 ^ 64 - unat (bs_sz s1) < 2 ^ 64 - unat (bs_sz s)" by arith
      from less.hyps[OF this s1(1)] obtain r where
        r: "grow_loop E nd i s1 = Some r"
           "\<forall>s'. r = Inr s' \<longrightarrow> P s' \<and> bs_sz s1 \<le> bs_sz s' \<and> i < bs_sz s'"
        by blast
      from r(2) s1(2) have "\<forall>s'. r = Inr s' \<longrightarrow> P s' \<and> bs_sz s \<le> bs_sz s' \<and> i < bs_sz s'"
        by auto
      with r(1) eq show ?thesis by simp
    qed
  qed
qed

lemma fast_path_sz: "fast_path sync strict nd s i = Inr s' \<Longrightarrow> bs_sz s' = bs_sz s"
  by (auto simp add: fast_path_def split: if_splits sum.splits)

lemma set_returns:
  assumes step: "\<And>s s'. capacity_ok heap s \<Longrightarrow> E s = Inr s' \<Longrightarrow>
                  capacity_ok heap s' \<and> bs_sz s < bs_sz s'"
    and "capacity_ok heap s"
  shows "\<exists>r. then_fast_path sync strict nd i (grow_loop E nd i s) = Some r \<and>
             (\<forall>s'. r = Inr s' \<longrightarrow> capacity_ok heap s' \<and> bs_sz s \<le> bs_sz s')"
proof -
  from grow_loop_returns[of "capacity_ok heap" E s nd i, OF step assms(2)]
  obtain r where r: "grow_loop E nd i s = Some r"
    "\<forall>s'. r = Inr s' \<longrightarrow> capacity_ok heap s' \<and> bs_sz s \<le> bs_sz s' \<and> i < bs_sz s'"
    by blast
  show ?thesis
  proof (cases r)
    case (Inl e)
    with r(1) show ?thesis by (simp add: then_fast_path_def)
  next
    case (Inr s1)
    with r(2) have s1: "capacity_ok heap s1" "bs_sz s \<le> bs_sz s1" by simp_all
    have "capacity_ok heap s' \<and> bs_sz s \<le> bs_sz s'"
      if "fast_path sync strict nd s1 i = Inr s'" for s'
      using fast_path_sz[OF that] s1 by (simp add: capacity_ok_def)
    with r(1) Inr show ?thesis by (simp add: then_fast_path_def)
  qed
qed

lemma bs_call_returns:
  assumes "heap < 2 ^ 58" "capacity_ok heap s"
  shows "\<exists>r. bs_call sync nd heap s x = Some r \<and>
             (\<forall>s'. r = Inr s' \<longrightarrow> capacity_ok heap s' \<and> bs_sz s \<le> bs_sz s')"
proof (cases x)
  case (Test i)
  with assms(2) show ?thesis by (simp add: bs_call_def split: sum.splits)
next
  case (Set i)
  show ?thesis
  proof (cases sync)
    case True
    with Set set_returns[of heap "SyncBitset_expand heap" s True True nd i, OF _ assms(2)]
      SyncBitset_expand_grows[OF assms(1)]
    show ?thesis by (simp add: bs_call_def SyncBitset_set_def)
  next
    case False
    with Set set_returns[of heap "Bitset_expand heap" s False True nd i, OF _ assms(2)]
      Bitset_expand_grows[OF assms(1)]
    show ?thesis by (simp add: bs_call_def Bitset_set_def)
  qed
next
  case (SetOver i)
  show ?thesis
  proof (cases sync)
    case True
    with SetOver set_returns[of heap "SyncBitset_expand heap" s True False nd i, OF _ assms(2)]
      SyncBitset_expand_grows[OF assms(1)]
    show ?thesis by (simp add: bs_call_def SyncBitset_setOver_def)
  next
    case False
    with SetOver set_returns[of heap "Bitset_expand heap" s False False nd i, OF _ assms(2)]
      Bitset_expand_grows[OF assms(1)]
    show ?thesis by (simp add: bs_call_def Bitset_setOver_def)
  qed
qed

lemma bs_calls_returns:
  assumes "heap < 2 ^ 58"
  shows "capacity_ok heap s \<Longrightarrow>
         \<exists>r. bs_calls sync nd heap s xs = Some r \<and>
             (\<forall>s'. r = Inr s' \<longrightarrow> capacity_ok heap s' \<and> bs_sz s \<le> bs_sz s')"
proof (induction xs arbitrary: s)
  case Nil
  then show ?case by simp
next
  case (Cons x xs)
  from bs_call_returns[OF assms Cons.prems, of sync nd x] obtain r where
    r: "bs_call sync nd heap s x = Some r"
       "\<forall>s'. r = Inr s' \<longrightarrow> capacity_ok heap s' \<and> bs_sz s \<le> bs_sz s'"
    by blast
  show ?case
  proof (cases r)
    case (Inl e)
    with r(1) show ?thesis by simp
  next
    case (Inr s1)
    with r(2) have s1: "capacity_ok heap s1" "bs_sz s \<le> bs_sz s1" by simp_all
    from Cons.IH[OF s1(1)] obtain r' where
      r': "bs_calls sync nd heap s1 xs = Some r'"
          "\<forall>s'. r' = Inr s' \<longrightarrow> capacity_ok heap s' \<and> bs_sz s1 \<le> bs_sz s'"
      by blast
    from r'(2) s1(2) have "\<forall>s'. r' = Inr s' \<longrightarrow> capacity_ok heap s' \<and> bs_sz s \<le> bs_sz s'"
      by auto
    with r(1) Inr r'(1) show ?thesis by simp
  qed
qed

lemma Bitset_ctor_capacity_ok:
  assumes "heap < 2 ^ 58" "Bitset_ctor heap sz = Inr b"
  shows "capacity_ok heap b"
proof -
  have h: "heap < 2 ^ 59" using assms(1) by simp
  from Bitset_ctor_Inr(1,3)[OF h assms(2)] show ?thesis by (simp add: capacity_ok_def)
qed

text \<open>
  Claim C4: the growth loop terminates, every \<^verbatim>\<open>expand\<close> strictly increases the capacity,
  and the capacity never decreases over a sequence of \<^verbatim>\<open>test\<close>, \<^verbatim>\<open>set\<close> and \<^verbatim>\<open>setOver\<close>
  calls, in \<^verbatim>\<open>Bitset\<close> and in \<^verbatim>\<open>SyncBitset\<close>.  The allocator is taken to refuse requests
  of \<open>2^58\<close> words (one exbibyte) or more.  \<open>capacity_ok\<close> holds of every constructed
  bitset and is kept by every call.  The new capacity that \<^verbatim>\<open>expand\<close> computes exceeds
  the old one; the loop, and with it every sequence of calls, returns for every index,
  with a bitset or with a fault; and the capacity of a bitset that is returned is not
  below the capacity at the start.
\<close>

theorem growth_terminates_and_increases:
  assumes "heap < 2 ^ 58"
  shows "(\<forall>b. Bitset_ctor heap sz = Inr b \<longrightarrow> capacity_ok heap b) \<and>
         (capacity_ok heap s \<longrightarrow>
            bs_sz s < Bitset_expand_sz (bs_sz s) \<and>
            bs_sz s < SyncBitset_expand_sz (bs_sz s) \<and>
            (\<exists>r. grow_loop (Bitset_expand heap) nd i s = Some r) \<and>
            (\<exists>r. grow_loop (SyncBitset_expand heap) nd i s = Some r) \<and>
            (\<forall>s'. Bitset_expand heap s = Inr s' \<longrightarrow>
                 bs_sz s < bs_sz s' \<and> capacity_ok heap s') \<and>
            (\<forall>s'. SyncBitset_expand heap s = Inr s' \<longrightarrow>
                 bs_sz s < bs_sz s' \<and> capacity_ok heap s') \<and>
            (\<exists>r. bs_calls sync nd heap s xs = Some r \<and>
                 (\<forall>s'. r = Inr s' \<longrightarrow> bs_sz s \<le> bs_sz s' \<and> capacity_ok heap s')))"
proof (intro conjI allI impI)
  fix b assume "Bitset_ctor heap sz = Inr b"
  then show "capacity_ok heap b" by (rule Bitset_ctor_capacity_ok[OF assms])
next
  assume ok: "capacity_ok heap s"
  then have "2 \<le> unat (bs_sz s)" by (simp add: capacity_ok_def)
  from expand_sz_increases[OF this capacity_ok_less[OF assms ok]]
  show "bs_sz s < Bitset_expand_sz (bs_sz s)" "bs_sz s < SyncBitset_expand_sz (bs_sz s)" .
next
  assume ok: "capacity_ok heap s"
  from grow_loop_returns[of "capacity_ok heap" "Bitset_expand heap" s nd i, OF _ ok]
    Bitset_expand_grows[OF assms]
  show "\<exists>r. grow_loop (Bitset_expand heap) nd i s = Some r" by blast
next
  assume ok: "capacity_ok heap s"
  from grow_loop_returns[of "capacity_ok heap" "SyncBitset_expand heap" s nd i, OF _ ok]
    SyncBitset_expand_grows[OF assms]
  show "\<exists>r. grow_loop (SyncBitset_expand heap) nd i s = Some r" by blast
next
  fix s' assume "capacity_ok heap s" "Bitset_expand heap s = Inr s'"
  from Bitset_expand_grows[OF assms this]
  show "bs_sz s < bs_sz s'" "capacity_ok heap s'" by simp_all
next
  fix s' assume "capacity_ok heap s" "SyncBitset_expand heap s = Inr s'"
  from SyncBitset_expand_grows[OF assms this]
  show "bs_sz s < bs_sz s'" "capacity_ok heap s'" by simp_all
next
  assume ok: "capacity_ok heap s"
  from bs_calls_returns[OF assms ok, of sync nd xs]
  show "\<exists>r. bs_calls sync nd heap s xs = Some r \<and>
                 (\<forall>s'. r = Inr s' \<longrightarrow> bs_sz s \<le> bs_sz s' \<and> capacity_ok heap s')"
    by blast
qed

lemma expand_64:
  "Bitset_expand 1000 \<lparr>bs_sz = 64, bs_words = replicate 8 (Some 0)\<rparr> =
     Inr \<lparr>bs_sz = 96, bs_words = replicate 12 (Some 0)\<rparr>"
  by (simp add: expand_defs mem_defs replicate_add[symmetric])

lemma sync_expand_64:
  "SyncBitset_expand 1000 \<lparr>bs_sz = 64, bs_words = replicate 8 (Some 0)\<rparr> =
     Inr \<lparr>bs_sz = 96, bs_words = replicate 12 (Some 0)\<rparr>"
  by (simp add: expand_defs mem_defs replicate_add[symmetric])

text \<open>The theorem at a bitset of 64 bits, which grows to 96 bits for the index 70.\<close>

theorem growth_terminates_and_increases_witness:
  "(1000::nat) < 2 ^ 58 \<and>
   Bitset_ctor 1000 40 = Inr \<lparr>bs_sz = 64, bs_words = replicate 8 (Some 0)\<rparr> \<and>
   capacity_ok 1000 \<lparr>bs_sz = 64, bs_words = replicate 8 (Some 0)\<rparr> \<and>
   Bitset_expand 1000 \<lparr>bs_sz = 64, bs_words = replicate 8 (Some 0)\<rparr> =
     Inr \<lparr>bs_sz = 96, bs_words = replicate 12 (Some 0)\<rparr> \<and>
   (bs_sz \<lparr>bs_sz = 64, bs_words = replicate 8 (Some 0)\<rparr> <
     bs_sz \<lparr>bs_sz = 96, bs_words = replicate 12 (Some 0)\<rparr> \<and>
    capacity_ok 1000 \<lparr>bs_sz = 96, bs_words = replicate 12 (Some 0)\<rparr>) \<and>
   (\<exists>r. grow_loop (Bitset_expand 1000) False 70
          \<lparr>bs_sz = 64, bs_words = replicate 8 (Some 0)\<rparr> = Some r) \<and>
   (\<exists>r. grow_loop (SyncBitset_expand 1000) False 70
          \<lparr>bs_sz = 64, bs_words = replicate 8 (Some 0)\<rparr> = Some r) \<and>
   (\<exists>r. bs_calls False False 1000 \<lparr>bs_sz = 64, bs_words = replicate 8 (Some 0)\<rparr>
          [Set 70, Test 70] = Some r)"
proof -
  let ?b = "\<lparr>bs_sz = 64, bs_words = replicate 8 (Some 0)\<rparr>"
  have h: "(1000::nat) < 2 ^ 58" by simp
  have ok: "capacity_ok 1000 ?b" by (simp add: capacity_ok_def)
  note t = growth_terminates_and_increases[OF h, of 40 ?b False 70 False "[Set 70, Test 70]",
      THEN conjunct2, THEN mp, OF ok]
  from t have g: "\<exists>r. grow_loop (Bitset_expand 1000) False 70 ?b = Some r" by blast
  from t have g': "\<exists>r. grow_loop (SyncBitset_expand 1000) False 70 ?b = Some r" by blast
  from t expand_64 have e: "bs_sz ?b < bs_sz \<lparr>bs_sz = 96, bs_words = replicate 12 (Some 0)\<rparr> \<and>
    capacity_ok 1000 \<lparr>bs_sz = 96, bs_words = replicate 12 (Some 0)\<rparr>" by blast
  from t have c: "\<exists>r. bs_calls False False 1000 ?b [Set 70, Test 70] = Some r" by blast
  from h ctor_40 ok expand_64 e g g' c show ?thesis by blast
qed

section \<open>Words in a heap array\<close>

lemma bit_byte_high: "8 \<le> m \<Longrightarrow> \<not> bit (b::byte) m"
  using bit_imp_le_length[of b m] by auto

lemma bit_word_of_bytes:
  "bit (word_of_bytes [b0, b1, b2, b3]) m =
     (m < 32 \<and> bit ([b0, b1, b2, b3] ! (m div 8)) (m mod 8))"
proof -
  consider "m < 8" | "8 \<le> m" "m < 16" | "16 \<le> m" "m < 24" | "24 \<le> m" "m < 32" | "32 \<le> m"
    by linarith
  then show ?thesis
  proof cases
    case 1
    then show ?thesis by (auto simp add: word_of_bytes_def bit_simps bit_byte_high)
  next
    case 2
    then have "m div 8 = 1" "m mod 8 = m - 8" by simp_all arith+
    with 2 show ?thesis by (auto simp add: word_of_bytes_def bit_simps bit_byte_high)
  next
    case 3
    then have "m div 8 = 2" "m mod 8 = m - 16" by simp_all arith+
    with 3 show ?thesis by (auto simp add: word_of_bytes_def bit_simps bit_byte_high)
  next
    case 4
    then have "m div 8 = 3" "m mod 8 = m - 24" by simp_all arith+
    with 4 show ?thesis by (auto simp add: word_of_bytes_def bit_simps bit_byte_high)
  next
    case 5
    then show ?thesis by (auto simp add: word_of_bytes_def bit_simps bit_byte_high)
  qed
qed

lemma bit_bytes_of_word:
  assumes "q < 4"
  shows "bit (bytes_of_word w ! q) r = (r < 8 \<and> bit w (8 * q + r))"
proof -
  from assms consider "q = 0" | "q = 1" | "q = 2" | "q = 3" by linarith
  then show ?thesis
    by cases (auto simp add: bytes_of_word_def bit_simps)
qed

lemma length_bytes_of_word: "length (bytes_of_word w) = 4"
  by (simp add: bytes_of_word_def)

lemma those_map_Some: "those (map Some xs) = Some xs"
  by (induction xs) simp_all

lemma initialised_map_Some: "None \<notin> set a \<Longrightarrow> a = map Some (map the a)"
  by (induction a) auto

lemma four_bytes:
  assumes "length (bs::'a list) = 4"
  shows "bs = [bs ! 0, bs ! 1, bs ! 2, bs ! 3]"
  using assms by (auto simp add: list_eq_iff_nth_eq nth_Cons' less_Suc_eq numeral_eq_Suc)

text \<open>A word of initialised bytes within the array is read, and holds the bits of its bytes.\<close>

lemma load_word_Inr:
  assumes "4 * k + 4 \<le> length a" "None \<notin> set a"
  shows "\<exists>w. load_word a k = Inr w \<and> (\<forall>m. bit w m = (m < 32 \<and> byte_bit a (32 * k + m)))"
proof -
  define bs where "bs = map the (take 4 (drop (4 * k) a))"
  have "None \<notin> set (take 4 (drop (4 * k) a))"
    using assms(2) by (meson in_set_dropD in_set_takeD)
  then have e: "take 4 (drop (4 * k) a) = map Some bs"
    unfolding bs_def by (rule initialised_map_Some)
  have l: "length bs = 4" using assms(1) by (simp add: bs_def)
  have q: "bs ! q = the (a ! (4 * k + q))" if "q < 4" for q
    using that assms(1) by (simp add: bs_def)
  have ld: "load_word a k = Inr (word_of_bytes bs)"
    using assms(1) by (simp add: load_word_def e those_map_Some)
  have "bit (word_of_bytes bs) m = (m < 32 \<and> byte_bit a (32 * k + m))" for m
  proof (cases "m < 32")
    case False
    then show ?thesis using bit_imp_le_length[of "word_of_bytes bs" m] by auto
  next
    case True
    then have d: "m div 8 < 4" by simp
    have i: "(32 * k + m) div 8 = 4 * k + m div 8" "(32 * k + m) mod 8 = m mod 8" by arith+
    have lt: "4 * k + m div 8 < length a" using d assms(1) by simp
    then have "a ! (4 * k + m div 8) \<noteq> None" using assms(2) by (metis nth_mem)
    then have s: "a ! (4 * k + m div 8) = Some (bs ! (m div 8))"
      using q[OF d] by auto
    have "bit (word_of_bytes bs) m = bit (bs ! (m div 8)) (m mod 8)"
      using bit_word_of_bytes[of "bs ! 0" "bs ! 1" "bs ! 2" "bs ! 3" m] four_bytes[OF l] True
      by simp
    with True lt show ?thesis by (simp add: byte_bit_def i s)
  qed
  with ld show ?thesis by blast
qed

text \<open>A word within the array is written; the other bits of the array stay.\<close>

lemma store_word_Inr:
  assumes "4 * k + 4 \<le> length a"
  shows "\<exists>a'. store_word a k w = Inr a' \<and> length a' = length a \<and>
              (None \<notin> set a \<longrightarrow> None \<notin> set a') \<and>
              (\<forall>j<8 * length a. byte_bit a' j =
                 (if j div 32 = k then bit w (j mod 32) else byte_bit a j))"
proof -
  define a' where "a' = take (4 * k) a @ map Some (bytes_of_word w) @ drop (4 * k + 4) a"
  have st: "store_word a k w = Inr a'" using assms by (simp add: store_word_def a'_def)
  have len: "length a' = length a" using assms by (simp add: a'_def length_bytes_of_word)
  have ini: "None \<notin> set a'" if "None \<notin> set a"
    using that by (auto simp add: a'_def dest: in_set_takeD in_set_dropD)
  have bits: "byte_bit a' j = (if j div 32 = k then bit w (j mod 32) else byte_bit a j)"
    if "j < 8 * length a" for j
  proof -
    define p where "p = j div 8"
    have p: "p < length a" using that by (simp add: p_def less_mult_imp_div_less mult.commute)
    have "j div 32 = p div 4" by (simp add: p_def div_mult2_eq[symmetric])
    then have pk: "(j div 32 = k) = (4 * k \<le> p \<and> p < 4 * k + 4)" by auto
    show ?thesis
    proof (cases "j div 32 = k")
      case True
      with pk have r: "4 * k \<le> p" "p < 4 * k + 4" by simp_all
      then have d: "p - 4 * k < 4" "\<not> p < 4 * k" by arith+
      have "a' ! p = (map Some (bytes_of_word w) @ drop (4 * k + 4) a) ! (p - 4 * k)"
        using assms d(2) by (simp add: a'_def nth_append)
      also have "\<dots> = Some (bytes_of_word w ! (p - 4 * k))"
        using d(1) by (simp add: nth_append length_bytes_of_word)
      finally have "a' ! p = Some (bytes_of_word w ! (p - 4 * k))" .
      moreover have "bit (bytes_of_word w ! (p - 4 * k)) (j mod 8) =
                     bit w (8 * (p - 4 * k) + j mod 8)"
        using d(1) by (simp add: bit_bytes_of_word)
      moreover have "8 * (p - 4 * k) + j mod 8 = j mod 32"
      proof -
        have "j = 8 * p + j mod 8" by (simp add: p_def)
        moreover have "j = 32 * k + j mod 32" using True by (metis div_mult_mod_eq mult.commute)
        ultimately show ?thesis using r(1) by linarith
      qed
      ultimately show ?thesis using True p len by (simp add: byte_bit_def p_def)
    next
      case False
      with pk have "p < 4 * k \<or> 4 * k + 4 \<le> p" by arith
      then have "a' ! p = a ! p"
        using assms p by (auto simp add: a'_def nth_append length_bytes_of_word)
      with False p len show ?thesis by (simp add: byte_bit_def p_def)
    qed
  qed
  from st len ini bits show ?thesis by blast
qed

lemma byte_bit_append: "byte_bit (a @ replicate n (Some 0)) j = byte_bit a j"
proof (cases "j div 8 < length a")
  case True
  then show ?thesis by (simp add: byte_bit_def nth_append)
next
  case False
  then show ?thesis by (simp add: byte_bit_def nth_append)
qed

section \<open>Bitsets of whole words\<close>

lemma bs_wf_word:
  assumes "bs_wf s" "i < bs_sz s"
  shows "4 * (unat i div 32) + 4 \<le> length (bs_words s)"
proof -
  from assms(1) obtain m where m: "length (bs_words s) = 4 * m"
    by (auto simp add: bs_wf_def)
  have "unat i < m * 32" using assms m by (simp add: bs_wf_def word_less_nat_alt)
  then have "unat i div 32 < m" by (rule less_mult_imp_div_less)
  with m show ?thesis by simp
qed

lemma Bitset_test_bs_bit:
  assumes "bs_wf s"
  shows "Bitset_test s i = Inr (bs_bit s i)"
proof (cases "i < bs_sz s")
  case False
  then show ?thesis by (simp add: Bitset_test_def bs_bit_def)
next
  case True
  from load_word_Inr[OF bs_wf_word[OF assms True]] assms obtain w where
    w: "load_word (bs_words s) (unat i div 32) = Inr w"
       "\<forall>m. bit w m = (m < 32 \<and> byte_bit (bs_words s) (32 * (unat i div 32) + m))"
    by (auto simp add: bs_wf_def)
  have "32 * (unat i div 32) + unat i mod 32 = unat i" by simp
  with w(2) have "bit w (unat i mod 32) = byte_bit (bs_words s) (unat i)" by simp
  with True w(1) show ?thesis
    by (simp add: Bitset_test_def bs_bit_def unat_shift5 bit_of_cases)
qed

text \<open>
  Within the capacity the fast path sets the bit and no other; it stops only at the
  assertion of \<^verbatim>\<open>set\<close> that the bit is clear.
\<close>

lemma fast_path_bs_bit:
  assumes "bs_wf s" "i < bs_sz s" "fast_path sync strict nd s i = Inr s'"
  shows "bs_wf s' \<and> bs_sz s' = bs_sz s \<and> (\<forall>j. bs_bit s' j = (bs_bit s j \<or> j = i))"
proof -
  note b = bs_wf_word[OF assms(1,2)]
  from load_word_Inr[OF b] assms(1) obtain w where
    w: "load_word (bs_words s) (unat i div 32) = Inr w"
    and wb: "\<forall>m. bit w m = (m < 32 \<and> byte_bit (bs_words s) (32 * (unat i div 32) + m))"
    by (auto simp add: bs_wf_def)
  from store_word_Inr[OF b, of "w OR bit_mask i"] obtain a' where
    a': "store_word (bs_words s) (unat i div 32) (w OR bit_mask i) = Inr a'"
        "length a' = length (bs_words s)"
        "None \<notin> set (bs_words s) \<longrightarrow> None \<notin> set a'"
        "\<forall>j<8 * length (bs_words s). byte_bit a' j =
           (if j div 32 = unat i div 32 then bit (w OR bit_mask i) (j mod 32)
            else byte_bit (bs_words s) j)"
    by blast
  from assms(3) w a'(1) have s': "s' = s\<lparr>bs_words := a'\<rparr>"
    by (auto simp add: fast_path_def unat_shift5 split: if_splits)
  have wf: "bs_wf s'" using assms(1) a'(2,3) by (simp add: s' bs_wf_def)
  have "bs_bit s' j = (bs_bit s j \<or> j = i)" for j
  proof (cases "j < bs_sz s")
    case False
    with assms(2) show ?thesis by (auto simp add: bs_bit_def s')
  next
    case True
    then have jl: "unat j < 8 * length (bs_words s)"
      using assms(1) by (simp add: bs_wf_def word_less_nat_alt)
    show ?thesis
    proof (cases "unat j div 32 = unat i div 32")
      case d: False
      then have "j \<noteq> i" by auto
      with d True a'(4) jl show ?thesis by (simp add: bs_bit_def s')
    next
      case d: True
      have "32 * (unat j div 32) + unat j mod 32 = unat j" by simp
      with d have e: "32 * (unat i div 32) + unat j mod 32 = unat j" by simp
      have "(j = i) = (unat j mod 32 = unat i mod 32)"
        using d by (metis div_mult_mod_eq word_unat_eq_iff)
      moreover have "bit w (unat j mod 32) = byte_bit (bs_words s) (unat j)"
        using wb e by simp
      ultimately show ?thesis
        using d True a'(4) jl by (simp add: bs_bit_def s' bit_or_mask)
    qed
  qed
  with wf show ?thesis by (simp add: s')
qed

text \<open>
  What \<^verbatim>\<open>expand\<close> does to a bitset of \<open>m\<close> whole words, in both classes.  The new capacity
  is \<open>48 * m\<close> bits and the new array has \<open>3 * m div 2\<close> words.  When \<open>m\<close> is even the old
  words are copied and \<open>m div 2\<close> zero words follow them.  When \<open>m\<close> is odd the capacity is
  not a multiple of 32, the array is two bytes short of it, and the zero-fill of
  \<open>2 * m\<close> bytes ends two bytes after the array.
\<close>

lemma expand_whole_words:
  assumes "unat (bs_sz s) = 32 * m" "length (bs_words s) = 4 * m" "m < 2 ^ 58"
  shows "Bitset_expand heap s =
           (if 3 * m div 2 \<le> heap
            then if even m
                 then Inr \<lparr>bs_sz = Bitset_expand_sz (bs_sz s),
                           bs_words = bs_words s @ replicate (2 * m) (Some 0)\<rparr>
                 else Inl OutOfBounds
            else Inl AllocFailed)"
    and "SyncBitset_expand heap s =
           (if 3 * m div 2 \<le> heap
            then if even m
                 then Inr \<lparr>bs_sz = SyncBitset_expand_sz (bs_sz s),
                           bs_words = bs_words s @ replicate (2 * m) (Some 0)\<rparr>
                 else Inl OutOfBounds
            else Inl AllocFailed)"
    and "unat (Bitset_expand_sz (bs_sz s)) = 48 * m"
    and "unat (SyncBitset_expand_sz (bs_sz s)) = 48 * m"
proof -
  have lt: "unat (bs_sz s) < 2 ^ 63" using assms(1,3) by simp
  show n: "unat (Bitset_expand_sz (bs_sz s)) = 48 * m"
    using unat_Bitset_expand_sz[OF lt] assms(1) by simp
  show n': "unat (SyncBitset_expand_sz (bs_sz s)) = 48 * m"
    using unat_SyncBitset_expand_sz[OF lt] assms(1) by simp
  have d: "unat (SyncBitset_expand_sz (bs_sz s) - bs_sz s) = 16 * m"
  proof -
    have "bs_sz s \<le> SyncBitset_expand_sz (bs_sz s)"
      using n' assms(1) by (simp add: word_le_nat_alt)
    then have "unat (SyncBitset_expand_sz (bs_sz s) - bs_sz s) =
               unat (SyncBitset_expand_sz (bs_sz s)) - unat (bs_sz s)"
      by (rule unat_sub)
    with n' assms(1) show ?thesis by simp
  qed
  have w: "48 * m div 32 = 3 * m div 2" by arith
  have s3: "unat (drop_bit 3 (bs_sz s)) = 4 * m" using assms(1) by (simp add: unat_shift3)
  have s4: "unat (drop_bit 4 (bs_sz s)) = 2 * m" using assms(1) by (simp add: unat_shift4)
  have s5: "unat (drop_bit 5 (bs_sz s)) = m" using assms(1) by (simp add: unat_shift5)
  have s5n: "unat (drop_bit 5 (Bitset_expand_sz (bs_sz s))) = 3 * m div 2"
    by (simp add: unat_shift5 n w)
  have s5n': "unat (drop_bit 5 (SyncBitset_expand_sz (bs_sz s))) = 3 * m div 2"
    by (simp add: unat_shift5 n' w)
  have d3: "unat (drop_bit 3 (SyncBitset_expand_sz (bs_sz s) - bs_sz s)) = 2 * m"
    by (simp add: unat_shift3 d)
  have c: "Bitset_expand heap s =
        (case new_uint32_t heap (3 * m div 2) of Inl e \<Rightarrow> Inl e
         | Inr newwords \<Rightarrow>
            (case memcpy newwords (bs_words s) (4 * m) of Inl e \<Rightarrow> Inl e
             | Inr copied \<Rightarrow>
                (case memset copied (4 * m) 0 (2 * m) of Inl e \<Rightarrow> Inl e
                 | Inr zeroed \<Rightarrow>
                     Inr \<lparr>bs_sz = Bitset_expand_sz (bs_sz s), bs_words = zeroed\<rparr>)))"
    unfolding Bitset_expand_def Let_def s3 s4 s5 s5n by simp
  have c': "SyncBitset_expand heap s =
        (case new_uint32_t heap (3 * m div 2) of Inl e \<Rightarrow> Inl e
         | Inr newwords \<Rightarrow>
            (case memcpy newwords (bs_words s) (4 * m) of Inl e \<Rightarrow> Inl e
             | Inr copied \<Rightarrow>
                (case memset copied (4 * m) 0 (2 * m) of Inl e \<Rightarrow> Inl e
                 | Inr zeroed \<Rightarrow>
                     Inr \<lparr>bs_sz = SyncBitset_expand_sz (bs_sz s), bs_words = zeroed\<rparr>)))"
    unfolding SyncBitset_expand_def Let_def s3 s5 s5n' d3 by simp
  have mem: "(case new_uint32_t heap (3 * m div 2) of Inl e \<Rightarrow> Inl e
         | Inr newwords \<Rightarrow>
            (case memcpy newwords (bs_words s) (4 * m) of Inl e \<Rightarrow> Inl e
             | Inr copied \<Rightarrow>
                (case memset copied (4 * m) 0 (2 * m) of Inl e \<Rightarrow> Inl e
                 | Inr zeroed \<Rightarrow> Inr (f zeroed)))) =
        (if 3 * m div 2 \<le> heap
            then if even m
                 then Inr (f (bs_words s @ replicate (2 * m) (Some 0)))
                 else Inl OutOfBounds
            else Inl AllocFailed)" for f :: "heap_array \<Rightarrow> Bitset"
  proof (cases "even m")
    case True
    then obtain k where k: "m = 2 * k" by (auto elim: evenE)
    have "(6 * k) div 2 = 3 * k" by simp
    then show ?thesis using assms(2) k
      by (simp add: new_uint32_t_def memcpy_def memset_def)
  next
    case False
    then obtain k where k: "m = 2 * k + 1" by (auto elim: oddE)
    have "(3 + 6 * k) div 2 = 3 * k + 1" by arith
    then show ?thesis using assms(2) k False
      by (simp add: new_uint32_t_def memcpy_def memset_def)
  qed
  show "Bitset_expand heap s =
           (if 3 * m div 2 \<le> heap
            then if even m
                 then Inr \<lparr>bs_sz = Bitset_expand_sz (bs_sz s),
                           bs_words = bs_words s @ replicate (2 * m) (Some 0)\<rparr>
                 else Inl OutOfBounds
            else Inl AllocFailed)"
    unfolding c by (rule mem)
  show "SyncBitset_expand heap s =
           (if 3 * m div 2 \<le> heap
            then if even m
                 then Inr \<lparr>bs_sz = SyncBitset_expand_sz (bs_sz s),
                           bs_words = bs_words s @ replicate (2 * m) (Some 0)\<rparr>
                 else Inl OutOfBounds
            else Inl AllocFailed)"
    unfolding c' by (rule mem)
qed

lemma expand_wf:
  assumes "heap < 2 ^ 58" "capacity_ok heap s" "bs_wf s"
    and "Bitset_expand heap s = Inr s' \<or> SyncBitset_expand heap s = Inr s'"
  shows "bs_wf s' \<and> (\<forall>j. bs_bit s' j = bs_bit s j)"
proof -
  from assms(3) obtain m where m: "length (bs_words s) = 4 * m"
    by (auto simp add: bs_wf_def)
  with assms(3) have sz: "unat (bs_sz s) = 32 * m" by (simp add: bs_wf_def)
  with assms(1,2) have mb: "m < 2 ^ 58" by (simp add: capacity_ok_def)
  note e = expand_whole_words(1,2)[OF sz m mb, of heap]
  note z = expand_whole_words(3,4)[OF sz m mb]
  from assms(4) e have ev: "even m"
    and w: "bs_words s' = bs_words s @ replicate (2 * m) (Some 0)"
    and n: "bs_sz s' = Bitset_expand_sz (bs_sz s) \<or> bs_sz s' = SyncBitset_expand_sz (bs_sz s)"
    by (auto split: if_splits)
  from n z have u: "unat (bs_sz s') = 48 * m" by auto
  from ev obtain k where k: "m = 2 * k" by (auto elim: evenE)
  have wf: "bs_wf s'"
    using assms(3) u m k by (simp add: bs_wf_def w)
  have "bs_bit s' j = bs_bit s j" for j
  proof -
    have a: "byte_bit (bs_words s') (unat j) = byte_bit (bs_words s) (unat j)"
      by (simp only: w byte_bit_append)
    show ?thesis
    proof (cases "j < bs_sz s")
      case True
      then have "j < bs_sz s'" using u sz by (simp add: word_less_nat_alt)
      with True a show ?thesis by (simp add: bs_bit_def)
    next
      case False
      then have "\<not> unat j div 8 < length (bs_words s)"
        using sz m by (simp add: word_less_nat_alt)
      then have "\<not> byte_bit (bs_words s) (unat j)" by (simp add: byte_bit_def)
      with False a show ?thesis by (simp add: bs_bit_def)
    qed
  qed
  with wf show ?thesis by simp
qed

section \<open>Calls that return a bitset\<close>

lemma set_wf:
  assumes "heap < 2 ^ 58" "capacity_ok heap s" "bs_wf s"
    and E: "E = Bitset_expand heap \<or> E = SyncBitset_expand heap"
    and r: "then_fast_path sync strict nd i (grow_loop E nd i s) = Some (Inr s')"
  shows "capacity_ok heap s' \<and> bs_wf s' \<and> (\<forall>j. bs_bit s' j = (bs_bit s j \<or> j = i))"
proof -
  define P where
    "P s1 = (capacity_ok heap s1 \<and> bs_wf s1 \<and> (\<forall>j. bs_bit s1 j = bs_bit s j))" for s1
  have step: "P s2 \<and> bs_sz s1 < bs_sz s2" if "P s1" "E s1 = Inr s2" for s1 s2
  proof -
    from that(1) have c: "capacity_ok heap s1" and w: "bs_wf s1"
      and b: "\<forall>j. bs_bit s1 j = bs_bit s j" by (simp_all add: P_def)
    from E that(2) have e: "Bitset_expand heap s1 = Inr s2 \<or> SyncBitset_expand heap s1 = Inr s2"
      by auto
    from expand_wf[OF assms(1) c w e] b have "bs_wf s2" "\<forall>j. bs_bit s2 j = bs_bit s j"
      by simp_all
    moreover from e Bitset_expand_grows[OF assms(1) c] SyncBitset_expand_grows[OF assms(1) c]
    have "capacity_ok heap s2 \<and> bs_sz s1 < bs_sz s2" by blast
    ultimately show ?thesis by (simp add: P_def)
  qed
  have "P s" using assms(2,3) by (simp add: P_def)
  from grow_loop_returns[of P E s nd i, OF step this] obtain g where
    g: "grow_loop E nd i s = Some g"
       "\<forall>s1. g = Inr s1 \<longrightarrow> P s1 \<and> bs_sz s \<le> bs_sz s1 \<and> i < bs_sz s1"
    by blast
  from r g(1) obtain s1 where s1: "g = Inr s1" "fast_path sync strict nd s1 i = Inr s'"
    by (auto simp add: then_fast_path_def split: sum.splits)
  with g(2) have p: "capacity_ok heap s1" "bs_wf s1" "\<forall>j. bs_bit s1 j = bs_bit s j"
    "i < bs_sz s1"
    by (simp_all add: P_def)
  from fast_path_bs_bit[OF p(2,4) s1(2)] p(1,3)
  show ?thesis by (simp add: capacity_ok_def)
qed

lemma bs_call_wf:
  assumes "heap < 2 ^ 58" "capacity_ok heap s" "bs_wf s"
    and "bs_call sync nd heap s x = Some (Inr s')"
  shows "capacity_ok heap s' \<and> bs_wf s' \<and>
         (\<forall>j. bs_bit s' j = (bs_bit s j \<or> j \<in> set_indices [x]))"
proof (cases x)
  case (Test i)
  with assms show ?thesis
    by (auto simp add: bs_call_def set_indices_def split: sum.splits)
next
  case (Set i)
  with assms(4) obtain E y where
    "E = Bitset_expand heap \<or> E = SyncBitset_expand heap"
    "then_fast_path y True nd i (grow_loop E nd i s) = Some (Inr s')"
    by (cases sync)
      (auto simp add: bs_call_def Bitset_set_def SyncBitset_set_def)
  from set_wf[OF assms(1-3) this] Set show ?thesis by (simp add: set_indices_def)
next
  case (SetOver i)
  with assms(4) obtain E y where
    "E = Bitset_expand heap \<or> E = SyncBitset_expand heap"
    "then_fast_path y False nd i (grow_loop E nd i s) = Some (Inr s')"
    by (cases sync)
      (auto simp add: bs_call_def Bitset_setOver_def SyncBitset_setOver_def)
  from set_wf[OF assms(1-3) this] SetOver show ?thesis by (simp add: set_indices_def)
qed

lemma set_indices_Cons: "set_indices (x # xs) = set_indices [x] \<union> set_indices xs"
  by (auto simp add: set_indices_def)

lemma bs_calls_wf:
  assumes "heap < 2 ^ 58"
  shows "capacity_ok heap s \<Longrightarrow> bs_wf s \<Longrightarrow> bs_calls sync nd heap s xs = Some (Inr s') \<Longrightarrow>
         bs_wf s' \<and> (\<forall>j. bs_bit s' j = (bs_bit s j \<or> j \<in> set_indices xs))"
proof (induction xs arbitrary: s)
  case Nil
  then show ?case by (simp add: set_indices_def)
next
  case (Cons x xs)
  from Cons.prems(3) obtain s1 where
    1: "bs_call sync nd heap s x = Some (Inr s1)"
    and 2: "bs_calls sync nd heap s1 xs = Some (Inr s')"
    by (auto split: option.splits sum.splits)
  from bs_call_wf[OF assms Cons.prems(1,2) 1]
  have c: "capacity_ok heap s1" "bs_wf s1"
    "\<forall>j. bs_bit s1 j = (bs_bit s j \<or> j \<in> set_indices [x])"
    by simp_all
  from Cons.IH[OF c(1,2) 2] c(3) show ?case
    by (auto simp add: set_indices_Cons[of x xs])
qed

lemma Bitset_ctor_wf:
  assumes "heap < 2 ^ 58" "Bitset_ctor heap sz = Inr b"
  shows "bs_wf b" and "\<not> bs_bit b j"
proof -
  have h: "heap < 2 ^ 59" using assms(1) by simp
  note c = Bitset_ctor_Inr[OF h assms(2)]
  from c(2,3) show wf: "bs_wf b" by (simp add: bs_wf_def)
  from Bitset_ctor_test[OF h assms(2), of j] Bitset_test_bs_bit[OF wf, of j]
  show "\<not> bs_bit b j" by simp
qed

text \<open>
  What holds of claim C1: when a sequence of calls on a constructed bitset returns a
  bitset, \<^verbatim>\<open>test(i)\<close> on it is true exactly for the indices that were set, for every
  \<open>i\<close>, within the capacity or beyond.
\<close>

lemma growable_tests_unless_fault:
  assumes "heap < 2 ^ 58" "Bitset_ctor heap sz = Inr b"
    and "bs_calls sync nd heap b xs = Some (Inr s)"
  shows "Bitset_test s i = Inr (i \<in> set_indices xs)"
proof -
  note w = Bitset_ctor_wf[OF assms(1,2)]
  from bs_calls_wf[OF assms(1) Bitset_ctor_capacity_ok[OF assms(1,2)] w(1) assms(3)] w(2)
  have "bs_wf s" "bs_bit s i = (i \<in> set_indices xs)" by simp_all
  then show ?thesis by (simp add: Bitset_test_bs_bit)
qed

section \<open>Growth from an odd number of words\<close>

text \<open>
  A bitset constructed with an odd number of words, as for every size hint below 32,
  never grows: the first \<^verbatim>\<open>set\<close> or \<^verbatim>\<open>setOver\<close> at or beyond its capacity stops in
  \<^verbatim>\<open>expand\<close>, at the allocation or at the zero-fill.
\<close>

lemma grow_odd_words:
  assumes "heap < 2 ^ 58" "Bitset_ctor heap sz = Inr b" "even (unat sz div 32)" "bs_sz b \<le> i"
    and E: "E = Bitset_expand heap \<or> E = SyncBitset_expand heap"
  shows "then_fast_path sync strict nd i (grow_loop E nd i b) \<in>
           {Some (Inl AllocFailed), Some (Inl OutOfBounds)}"
proof -
  have h: "heap < 2 ^ 59" using assms(1) by simp
  note c = Bitset_ctor_Inr[OF h assms(2)]
  have l: "length (bs_words b) = 4 * (unat sz div 32 + 1)" by (simp add: c(2))
  have m: "unat sz div 32 + 1 < 2 ^ 58" using c(1) assms(1) by simp
  have o: "odd (unat sz div 32 + 1)" using assms(3) by simp
  from expand_whole_words(1,2)[OF c(3) l m, of heap] o E
  have "E b = Inl AllocFailed \<or> E b = Inl OutOfBounds" by auto
  then have "grow_loop E nd i b = Some (Inl AllocFailed) \<or>
             grow_loop E nd i b = Some (Inl OutOfBounds)"
    using assms(4) by (subst grow_loop.simps, subst grow_loop.simps) auto
  then show ?thesis by (auto simp add: then_fast_path_def)
qed

text \<open>
  Claim C1: after \<^verbatim>\<open>set\<close>/\<^verbatim>\<open>setOver\<close> calls on a growable bitset, \<^verbatim>\<open>test(i)\<close> is true for
  every index that was set and false for every other index, and never faults.  For a
  bitset built with size hint 10 the first call \<^verbatim>\<open>set(40)\<close> already leaves the claim:
  \<^verbatim>\<open>expand\<close> raises the capacity from 32 to 48 bits, allocates \<^verbatim>\<open>48 >> 5 = 1\<close> word and
  then zeroes two bytes beyond that word, in \<^verbatim>\<open>Bitset\<close> and in \<^verbatim>\<open>SyncBitset\<close>, with
  \<^verbatim>\<open>set\<close> and with \<^verbatim>\<open>setOver\<close>, whether assertions are compiled in or not.
\<close>

theorem set_past_capacity_out_of_bounds:
  "Bitset_ctor 1000 10 = Inr \<lparr>bs_sz = 32, bs_words = replicate 4 (Some 0)\<rparr> \<and>
   Bitset_set nd 1000 \<lparr>bs_sz = 32, bs_words = replicate 4 (Some 0)\<rparr> 40 =
     Some (Inl OutOfBounds) \<and>
   Bitset_setOver nd 1000 \<lparr>bs_sz = 32, bs_words = replicate 4 (Some 0)\<rparr> 40 =
     Some (Inl OutOfBounds) \<and>
   SyncBitset_set nd 1000 \<lparr>bs_sz = 32, bs_words = replicate 4 (Some 0)\<rparr> 40 =
     Some (Inl OutOfBounds) \<and>
   SyncBitset_setOver nd 1000 \<lparr>bs_sz = 32, bs_words = replicate 4 (Some 0)\<rparr> 40 =
     Some (Inl OutOfBounds)"
proof -
  let ?b = "\<lparr>bs_sz = 32, bs_words = replicate 4 (Some 0)\<rparr>"
  have e: "Bitset_expand 1000 ?b = Inl OutOfBounds"
    by (simp add: expand_defs mem_defs)
  have e': "SyncBitset_expand 1000 ?b = Inl OutOfBounds"
    by (simp add: expand_defs mem_defs)
  have g: "grow_loop (Bitset_expand 1000) nd 40 ?b = Some (Inl OutOfBounds)"
    by (subst grow_loop.simps) (simp add: e)
  have g': "grow_loop (SyncBitset_expand 1000) nd 40 ?b = Some (Inl OutOfBounds)"
    by (subst grow_loop.simps) (simp add: e')
  show ?thesis
    by (simp add: ctor_10 Bitset_set_def Bitset_setOver_def SyncBitset_set_def
        SyncBitset_setOver_def g g' then_fast_path_def)
qed

text \<open>
  Claim C2: after construction and after every growth step the word array has
  \<open>ceil(capacity / 32)\<close> words and the capacity is a multiple of 32.  The growth step from
  the capacity 32 computes the capacity 48, which 32 does not divide, and allocates one
  word (four bytes) where \<open>ceil(48 / 32) = 2\<close>; the \<^verbatim>\<open>memset\<close> that follows writes beyond
  that word, in both classes.
\<close>

theorem expand_capacity_not_word_multiple:
  "Bitset_expand_sz 32 = 48 \<and> SyncBitset_expand_sz 32 = 48 \<and>
   \<not> 32 dvd unat (48::size_t) \<and>
   new_uint32_t 1000 (unat (drop_bit 5 (48::size_t))) = Inr (replicate 4 None) \<and>
   (unat (48::size_t) + 31) div 32 = 2 \<and>
   Bitset_expand 1000 \<lparr>bs_sz = 32, bs_words = replicate 4 (Some 0)\<rparr> = Inl OutOfBounds \<and>
   SyncBitset_expand 1000 \<lparr>bs_sz = 32, bs_words = replicate 4 (Some 0)\<rparr> = Inl OutOfBounds"
  by (simp add: expand_defs mem_defs)

text \<open>
  Claim C3: growth adds 50 percent, rounds up to a multiple of 8 and then to a word
  boundary, copies the old words and zero-fills the new ones.  From the capacity 32,
  \<^verbatim>\<open>Bitset::expand\<close> computes 48, 72, 108 (no rounding: 108 is not a multiple of 8) and
  \<^verbatim>\<open>SyncBitset::expand\<close> computes 48, 72, 112 (a multiple of 8, not of 32); \<^verbatim>\<open>set(100)\<close> on
  a bitset built with size hint 10 stops in the first step, whose zero-fill leaves the
  new array.
\<close>

theorem expand_steps_unaligned:
  "map Bitset_expand_sz [32, 48, 72] = [48, 72, 108] \<and> \<not> 8 dvd unat (108::size_t) \<and>
   map SyncBitset_expand_sz [32, 48, 72] = [48, 72, 112] \<and> \<not> 32 dvd unat (112::size_t) \<and>
   Bitset_set nd 1000 \<lparr>bs_sz = 32, bs_words = replicate 4 (Some 0)\<rparr> 100 =
     Some (Inl OutOfBounds) \<and>
   SyncBitset_set nd 1000 \<lparr>bs_sz = 32, bs_words = replicate 4 (Some 0)\<rparr> 100 =
     Some (Inl OutOfBounds)"
proof -
  let ?b = "\<lparr>bs_sz = 32, bs_words = replicate 4 (Some 0)\<rparr>"
  have e: "Bitset_expand 1000 ?b = Inl OutOfBounds"
    by (simp add: expand_defs mem_defs)
  have e': "SyncBitset_expand 1000 ?b = Inl OutOfBounds"
    by (simp add: expand_defs mem_defs)
  have g: "grow_loop (Bitset_expand 1000) nd 100 ?b = Some (Inl OutOfBounds)"
    by (subst grow_loop.simps) (simp add: e)
  have g': "grow_loop (SyncBitset_expand 1000) nd 100 ?b = Some (Inl OutOfBounds)"
    by (subst grow_loop.simps) (simp add: e')
  show ?thesis
    by (simp add: Bitset_expand_sz_def SyncBitset_expand_sz_def Bitset_set_def SyncBitset_set_def
        g g' then_fast_path_def)
qed

end
